theory Spec2Isabelle
  imports Main "HOL-Library.Word" "HOL-Library.Finite_Map" "HOL-Library.Multiset"
begin

section \<open>Data model (pkg/taskkit: models.go, workflow, registry)\<close>

text \<open>
  Go's \<open>int\<close> is a 64-bit two's complement integer on the platforms the tool is built
  for; \<open>+\<close> and \<open>++\<close> wrap around. The retry counters are read from the workflow YAML
  and range over the whole type, so they are \<open>64 word\<close>, compared through \<open>sint\<close>.
\<close>

type_synonym go_int = "64 word"

text \<open>Values of Go's \<open>any\<close> as the YAML and JSON decoders produce them.\<close>

datatype any = AnyNil | AnyBool bool | AnyString string | AnyInt int
  | AnyList "any list" | AnyMap "(string \<times> any) list"

text \<open>\<open>type Severity string\<close> with its four constants.\<close>

type_synonym Severity = string

definition SeverityInfo :: Severity where "SeverityInfo = ''INFO''"
definition SeverityWarning :: Severity where "SeverityWarning = ''WARNING''"
definition SeverityError :: Severity where "SeverityError = ''ERROR''"
definition SeverityDebug :: Severity where "SeverityDebug = ''DEBUG''"

record Message =
  Severity :: Severity
  Text :: string
  System :: string

record StepInput =
  StepName :: string
  TaskID :: string
  WorkflowName :: string
  Attempt :: go_int
  TotalRetries :: go_int
  Params :: "string \<rightharpoonup> any"
  Vars :: "string \<rightharpoonup> any"
  WorkflowResult :: string

record StepResult =
  Messages :: "Message list"
  ContextUpdates :: "string \<rightharpoonup> any"
  Output :: "string \<rightharpoonup> any"
  FlowControl :: "string \<rightharpoonup> any"

text \<open>The zero value of \<open>StepResult\<close> (\<open>var stepResult StepResult\<close>): nil slice, nil maps.\<close>

definition zeroStepResult :: StepResult where
  "zeroStepResult =
     \<lparr>StepResult.Messages = [], ContextUpdates = Map.empty, Output = Map.empty, FlowControl = Map.empty\<rparr>"

text \<open>\<open>HasErrors\<close>: the loop over the messages, returning at the first error message.\<close>

fun HasErrors_msgs :: "Message list \<Rightarrow> bool" where
  "HasErrors_msgs [] = False"
| "HasErrors_msgs (m # ms) = (if Severity m = SeverityError then True else HasErrors_msgs ms)"

definition HasErrors :: "StepResult \<Rightarrow> bool" where
  "HasErrors r = HasErrors_msgs (StepResult.Messages r)"

text \<open>\<open>Skip\<close> (models.go): sets both flow-control keys.\<close>

definition Skip :: "string \<Rightarrow> StepResult \<Rightarrow> StepResult" where
  "Skip reason r =
     r\<lparr>FlowControl := (FlowControl r)(''skip'' \<mapsto> AnyBool True, ''skip_reason'' \<mapsto> AnyString reason)\<rparr>"

definition AddError :: "string \<Rightarrow> string \<Rightarrow> StepResult \<Rightarrow> StepResult" where
  "AddError text system r =
     r\<lparr>StepResult.Messages := StepResult.Messages r @ [\<lparr>Severity = SeverityError, Text = text, System = system\<rparr>]\<rparr>"

definition AddInfo :: "string \<Rightarrow> string \<Rightarrow> StepResult \<Rightarrow> StepResult" where
  "AddInfo text system r =
     r\<lparr>StepResult.Messages := StepResult.Messages r @ [\<lparr>Severity = SeverityInfo, Text = text, System = system\<rparr>]\<rparr>"

definition SetVar :: "string \<Rightarrow> any \<Rightarrow> StepResult \<Rightarrow> StepResult" where
  "SetVar key v r = r\<lparr>ContextUpdates := (ContextUpdates r)(key \<mapsto> v)\<rparr>"

text \<open>
  \<open>StepExec\<close>. \<open>Status\<close> is a Go string: \<open>''''\<close> is the zero value, an unset status.
  The wall-clock \<open>Duration\<close> and the messages' timestamps are not modelled.
\<close>

record StepExec =
  Name :: string
  Handler :: string
  Status :: string
  Messages :: "Message list"
  Output :: "string \<rightharpoonup> any"
  Error :: string

type_synonym StepTemplate = string

definition TemplateInit :: StepTemplate where "TemplateInit = ''init''"
definition TemplateAction :: StepTemplate where "TemplateAction = ''action''"
definition TemplateFinalize :: StepTemplate where "TemplateFinalize = ''finalize''"

record WorkflowStep =
  Name :: string
  Depends :: "string list"
  Template :: StepTemplate
  Params :: "string \<rightharpoonup> any"
  Retries :: go_int

record WorkflowDefinition =
  Name :: string
  Description :: string
  Platform :: string
  HandlerPrefix :: string
  Steps :: "WorkflowStep list"
  DefaultRetries :: go_int
  TimeoutSeconds :: go_int

record Deps =
  Workdir :: string

text \<open>
  A step handler is arbitrary Go code: besides its result it may read and change the
  world outside the engine. \<open>'w\<close> is that world, threaded through every invocation.
  The handler receives the variables as a value; it reports changes through
  \<open>ContextUpdates\<close>.
\<close>

type_synonym 'w StepHandler = "StepInput \<Rightarrow> Deps \<Rightarrow> 'w \<Rightarrow> StepResult \<times> 'w"

text \<open>The process-wide registry, as \<open>Get\<close> reads it.\<close>

type_synonym 'w registry = "string \<rightharpoonup> 'w StepHandler"

definition Get :: "'w registry \<Rightarrow> string \<Rightarrow> 'w StepHandler option" where
  "Get registry name = registry name"

record LocalRunner =
  cfgTaskID :: string
  workflow :: WorkflowDefinition
  params :: "string \<rightharpoonup> any"
  vars :: "string \<rightharpoonup> any"
  deps :: Deps

section \<open>Workflow operations\<close>

definition GetHandlerName :: "WorkflowDefinition \<Rightarrow> WorkflowStep \<Rightarrow> string" where
  "GetHandlerName w step =
     (if HandlerPrefix w \<noteq> '''' then HandlerPrefix w @ ''-'' @ WorkflowStep.Name step
      else Platform w @ ''-'' @ WorkflowStep.Name step)"

definition GetRetries :: "WorkflowDefinition \<Rightarrow> WorkflowStep \<Rightarrow> go_int" where
  "GetRetries w step =
     (if 0 <s Retries step then Retries step
      else if 0 <s DefaultRetries w then DefaultRetries w
      else 0)"

subsection \<open>GetExecutionOrder\<close>

text \<open>
  The error values of \<open>GetExecutionOrder\<close>: \<open>UnknownDependency step dep\<close> is
  \<open>fmt.Errorf("step %q depends on unknown step %q", step.Name, dep)\<close>, and
  \<open>DependencyCycle\<close> is "workflow contains a dependency cycle".
\<close>

datatype resolve_error = UnknownDependency string string | DependencyCycle

text \<open>
  The three Go maps of \<open>GetExecutionOrder\<close> are finite maps. Reading a missing key
  gives the zero value of the element type: \<open>index_or zero m k\<close> is Go's \<open>m[k]\<close>.
\<close>

definition index_or :: "'v \<Rightarrow> ('k, 'v) fmap \<Rightarrow> 'k \<Rightarrow> 'v" where
  "index_or zero m k = (case fmlookup m k of None \<Rightarrow> zero | Some v \<Rightarrow> v)"

definition zeroWorkflowStep :: WorkflowStep where
  "zeroWorkflowStep =
     \<lparr>WorkflowStep.Name = '''', Depends = [], Template = '''', Params = Map.empty, Retries = 0\<rparr>"

type_synonym step_map = "(string, WorkflowStep) fmap"
type_synonym degree_map = "(string, int) fmap"
type_synonym dependents_map = "(string, string list) fmap"

text \<open>
  The first loop: \<open>stepMap[step.Name] = step\<close>, \<open>inDegree[step.Name] = len(step.Depends)\<close>
  and, for every dependency, \<open>dependents[dep] = append(dependents[dep], step.Name)\<close>.
  A slice length is below \<open>2^63\<close>, so the in-degree counters never wrap: they are \<open>int\<close>.
\<close>

definition add_dependent :: "string \<Rightarrow> string \<Rightarrow> dependents_map \<Rightarrow> dependents_map" where
  "add_dependent name dep dependents = fmupd dep (index_or [] dependents dep @ [name]) dependents"

fun build_step ::
  "WorkflowStep \<Rightarrow> step_map \<times> degree_map \<times> dependents_map
     \<Rightarrow> step_map \<times> degree_map \<times> dependents_map"
where
  "build_step step (stepMap, inDegree, dependents) =
     (fmupd (WorkflowStep.Name step) step stepMap,
      fmupd (WorkflowStep.Name step) (int (length (Depends step))) inDegree,
      fold (add_dependent (WorkflowStep.Name step)) (Depends step) dependents)"

definition build_maps :: "WorkflowStep list \<Rightarrow> step_map \<times> degree_map \<times> dependents_map" where
  "build_maps steps = fold build_step steps (fmempty, fmempty, fmempty)"

text \<open>The second loop returns the error of the first dependency that is not a key of \<open>stepMap\<close>.\<close>

fun validate_depends :: "step_map \<Rightarrow> string \<Rightarrow> string list \<Rightarrow> resolve_error option" where
  "validate_depends stepMap name [] = None"
| "validate_depends stepMap name (dep # rest) =
     (if fmlookup stepMap dep = None then Some (UnknownDependency name dep)
      else validate_depends stepMap name rest)"

fun validate_steps :: "step_map \<Rightarrow> WorkflowStep list \<Rightarrow> resolve_error option" where
  "validate_steps stepMap [] = None"
| "validate_steps stepMap (step # rest) =
     (case validate_depends stepMap (WorkflowStep.Name step) (Depends step) of
        Some e \<Rightarrow> Some e
      | None \<Rightarrow> validate_steps stepMap rest)"

text \<open>
  \<open>for name, degree := range inDegree\<close>: Go leaves the iteration order of a map
  unspecified and randomises it from one run to the next. \<open>keyOrder\<close> is the order in
  which this evaluation of the loop meets the keys; each key is met once.
\<close>

definition seed_queue :: "degree_map \<Rightarrow> string list \<Rightarrow> string list" where
  "seed_queue inDegree keyOrder = filter (\<lambda>name. fmlookup inDegree name = Some 0) keyOrder"

definition range_order :: "WorkflowDefinition \<Rightarrow> string list \<Rightarrow> bool" where
  "range_order w keyOrder \<longleftrightarrow>
     distinct keyOrder \<and> set keyOrder = set (map WorkflowStep.Name (WorkflowDefinition.Steps w))"

text \<open>The body of the inner loop: \<open>inDegree[dependent]--\<close>, then the test for zero.\<close>

fun relax :: "string \<Rightarrow> degree_map \<times> string list \<Rightarrow> degree_map \<times> string list" where
  "relax dependent (inDegree, queue) =
     (let inDegree' = fmupd dependent (index_or 0 inDegree dependent - 1) inDegree
      in (inDegree', if index_or 0 inDegree' dependent = 0 then queue @ [dependent] else queue))"

text \<open>The termination measure of the queue loop: what is queued plus what can still be queued.\<close>

definition potential :: "degree_map \<Rightarrow> nat" where
  "potential inDegree = (\<Sum>k \<in> fmdom' inDegree. nat (index_or 0 inDegree k))"

function kahn_loop ::
  "step_map \<Rightarrow> dependents_map \<Rightarrow> string list \<Rightarrow> degree_map \<Rightarrow> WorkflowStep list
     \<Rightarrow> WorkflowStep list"
where
  "kahn_loop stepMap dependents [] inDegree order = order"
| "kahn_loop stepMap dependents (name # queue) inDegree order =
     (case fold relax (index_or [] dependents name) (inDegree, queue) of
        (inDegree', queue') \<Rightarrow>
          kahn_loop stepMap dependents queue' inDegree'
            (order @ [index_or zeroWorkflowStep stepMap name]))"
  by pat_completeness auto
termination
proof (relation "measure (\<lambda>(stepMap, dependents, queue, inDegree, order).
                   length queue + potential inDegree)")
  show "wf (measure (\<lambda>(stepMap, dependents, queue, inDegree, order).
                   length queue + potential inDegree))" by simp
next
  fix stepMap :: step_map and dependents :: dependents_map and name :: string
    and queue :: "string list" and inDegree :: degree_map and order :: "WorkflowStep list"
    and inDegree' queue'
  assume xy: "(inDegree', queue') = fold relax (index_or [] dependents name) (inDegree, queue)"
  have one: "length (snd (relax k s)) + potential (fst (relax k s))
               \<le> length (snd s) + potential (fst s)" for k s
  proof -
    obtain m q where s: "s = (m, q)" by (cases s)
    let ?v = "index_or 0 m k"
    let ?S = "fmdom' m - {k}"
    have fin: "finite ?S" by simp
    have new: "potential (fmupd k (?v - 1) m) = nat (?v - 1) + (\<Sum>j \<in> ?S. nat (index_or 0 m j))"
    proof -
      have "potential (fmupd k (?v - 1) m) =
          nat (index_or 0 (fmupd k (?v - 1) m) k) + (\<Sum>j \<in> ?S. nat (index_or 0 (fmupd k (?v - 1) m) j))"
        unfolding potential_def by (simp add: sum.insert_remove)
      also have "(\<Sum>j \<in> ?S. nat (index_or 0 (fmupd k (?v - 1) m) j)) = (\<Sum>j \<in> ?S. nat (index_or 0 m j))"
        by (rule sum.cong) (auto simp: index_or_def)
      finally show ?thesis by (simp add: index_or_def)
    qed
    have old: "potential m = (if k \<in> fmdom' m then nat ?v else 0) + (\<Sum>j \<in> ?S. nat (index_or 0 m j))"
      unfolding potential_def by (simp add: sum.remove)
    have rel: "relax k (m, q) = (fmupd k (?v - 1) m, if ?v - 1 = 0 then q @ [k] else q)"
      by (simp add: Let_def index_or_def)
    have "k \<notin> fmdom' m \<Longrightarrow> ?v = 0" by (auto simp: index_or_def fmdom'_notI split: option.splits)
    then have le: "nat (?v - 1) + (if ?v - 1 = 0 then 1 else 0) \<le> (if k \<in> fmdom' m then nat ?v else 0)"
      by (cases "k \<in> fmdom' m") auto
    have "length (snd (relax k (m, q))) + potential (fst (relax k (m, q))) =
          length q + ((if ?v - 1 = 0 then 1 else 0) + potential (fmupd k (?v - 1) m))"
      unfolding rel by simp
    also have "\<dots> = length q + ((nat (?v - 1) + (if ?v - 1 = 0 then 1 else 0))
                         + (\<Sum>j \<in> ?S. nat (index_or 0 m j)))"
      unfolding new by simp
    also have "\<dots> \<le> length q + ((if k \<in> fmdom' m then nat ?v else 0)
                         + (\<Sum>j \<in> ?S. nat (index_or 0 m j)))"
      using le by (intro add_left_mono add_right_mono)
    also have "\<dots> = length (snd (m, q)) + potential (fst (m, q))"
      using old by simp
    finally show ?thesis unfolding s .
  qed
  have all: "length (snd (fold relax ks s)) + potential (fst (fold relax ks s))
               \<le> length (snd s) + potential (fst s)" for ks s
  proof (induction ks arbitrary: s)
    case Nil
    show ?case by simp
  next
    case (Cons k ks)
    show ?case using Cons.IH [of "relax k s"] one [of k s] by simp
  qed
  show "((stepMap, dependents, queue', inDegree', order @ [index_or zeroWorkflowStep stepMap name]),
         (stepMap, dependents, name # queue, inDegree, order))
        \<in> measure (\<lambda>(stepMap, dependents, queue, inDegree, order). length queue + potential inDegree)"
  proof -
    have "fold relax (index_or [] dependents name) (inDegree, queue) = (inDegree', queue')"
      using xy by simp
    then have "length queue' + potential inDegree' \<le> length queue + potential inDegree"
      using all [of "index_or [] dependents name" "(inDegree, queue)"] by simp
    then show ?thesis by simp
  qed
qed

definition GetExecutionOrder ::
  "WorkflowDefinition \<Rightarrow> string list \<Rightarrow> resolve_error + WorkflowStep list"
where
  "GetExecutionOrder w keyOrder =
     (case build_maps (WorkflowDefinition.Steps w) of
        (stepMap, inDegree, dependents) \<Rightarrow>
          (case validate_steps stepMap (WorkflowDefinition.Steps w) of
             Some e \<Rightarrow> Inl e
           | None \<Rightarrow>
               (let order = kahn_loop stepMap dependents (seed_queue inDegree keyOrder) inDegree []
                in if length order \<noteq> length (WorkflowDefinition.Steps w) then Inl DependencyCycle
                   else Inr order)))"

section \<open>The runner: executeStep\<close>

definition mergeParams :: "LocalRunner \<Rightarrow> (string \<rightharpoonup> any) \<Rightarrow> (string \<rightharpoonup> any)" where
  "mergeParams r stepParams = params r ++ stepParams"

text \<open>The two type assertions on \<open>FlowControl\<close> in the skip check.\<close>

definition skip_requested :: "StepResult \<Rightarrow> bool" where
  "skip_requested res =
     (case FlowControl res ''skip'' of Some (AnyBool skip) \<Rightarrow> skip | _ \<Rightarrow> False)"

definition skip_reason :: "StepResult \<Rightarrow> string" where
  "skip_reason res =
     (case FlowControl res ''skip_reason'' of Some (AnyString r) \<Rightarrow> r | _ \<Rightarrow> '''')"

text \<open>
  The retry loop \<open>for attempt := 1; attempt <= maxAttempts; attempt++\<close>. Its state is
  the loop counter, the input (whose \<open>Attempt\<close> is overwritten each round), the last
  \<open>stepResult\<close>, the record under construction and the handlers' world. The last
  component is a log of the handler invocations, input and outcome, in order; the code
  has no such log, it is what the claims about invocation counts speak of.
  \<open>attempt++\<close> wraps at the top of the type, so the loop need not end: it is a partial
  function and \<open>None\<close> stands for a loop that never exits.
\<close>

type_synonym call_log = "(StepInput \<times> StepResult) list"

partial_function (option) retry_loop ::
  "'w StepHandler \<Rightarrow> Deps \<Rightarrow> go_int \<Rightarrow> go_int \<Rightarrow> StepInput \<Rightarrow> StepResult \<Rightarrow> StepExec \<Rightarrow> 'w
     \<Rightarrow> call_log \<Rightarrow> (StepResult \<times> StepExec \<times> 'w \<times> call_log) option"
where
  "retry_loop handler dps maxAttempts attempt input stepResult exec w calls =
     (if attempt <=s maxAttempts then
        (case handler (input\<lparr>Attempt := attempt\<rparr>) dps w of
           (stepResult', w') \<Rightarrow>
             if skip_requested stepResult' then
               Some (stepResult',
                     exec\<lparr>Status := ''Skipped'', Error := skip_reason stepResult'\<rparr>,
                     w', calls @ [(input\<lparr>Attempt := attempt\<rparr>, stepResult')])
             else if \<not> HasErrors stepResult' then
               Some (stepResult', exec\<lparr>Status := ''Succeeded''\<rparr>,
                     w', calls @ [(input\<lparr>Attempt := attempt\<rparr>, stepResult')])
             else
               retry_loop handler dps maxAttempts (attempt + 1) (input\<lparr>Attempt := attempt\<rparr>)
                 stepResult'
                 (if attempt = maxAttempts then exec\<lparr>Status := ''Failed''\<rparr> else exec)
                 w' (calls @ [(input\<lparr>Attempt := attempt\<rparr>, stepResult')]))
      else Some (stepResult, exec, w, calls))"

text \<open>The \<open>StepInput\<close> literal that \<open>executeStep\<close> builds before the loop.\<close>

definition stepInput :: "LocalRunner \<Rightarrow> WorkflowStep \<Rightarrow> StepInput" where
  "stepInput r step =
     \<lparr>StepName = WorkflowStep.Name step, StepInput.TaskID = cfgTaskID r,
      StepInput.WorkflowName = WorkflowDefinition.Name (workflow r), Attempt = 1,
      TotalRetries = GetRetries (workflow r) step,
      StepInput.Params = mergeParams r (WorkflowStep.Params step), Vars = vars r,
      WorkflowResult = ''''\<rparr>"

text \<open>\<open>maxAttempts := r.workflow.GetRetries(step) + 1\<close>, in Go's wrapping arithmetic.\<close>

definition maxAttempts :: "WorkflowDefinition \<Rightarrow> WorkflowStep \<Rightarrow> go_int" where
  "maxAttempts w step = GetRetries w step + 1"

text \<open>The \<open>StepExec\<close> literal at the head of \<open>executeStep\<close>.\<close>

definition newStepExec :: "WorkflowStep \<Rightarrow> string \<Rightarrow> StepExec" where
  "newStepExec step handlerName =
     \<lparr>StepExec.Name = WorkflowStep.Name step, Handler = handlerName, Status = '''',
      Messages = [], Output = Map.empty, Error = ''''\<rparr>"

text \<open>
  \<open>executeStep\<close> returns the record, the runner (its \<open>vars\<close> updated), the world and
  the invocation log. The loop over \<open>stepResult.ContextUpdates\<close> assigns every key of
  the updates into \<open>r.vars\<close>, which is \<open>++\<close> on maps.
\<close>

definition executeStep ::
  "LocalRunner \<Rightarrow> 'w registry \<Rightarrow> WorkflowStep \<Rightarrow> 'w
     \<Rightarrow> (StepExec \<times> LocalRunner \<times> 'w \<times> call_log) option"
where
  "executeStep r registry step w =
     (let handlerName = GetHandlerName (workflow r) step;
          exec = newStepExec step handlerName
      in case Get registry handlerName of
           None \<Rightarrow>
             Some (exec\<lparr>Status := ''Failed'', Error := ''handler not found: '' @ handlerName\<rparr>,
                   r, w, [])
         | Some handler \<Rightarrow>
             (case retry_loop handler (deps r) (maxAttempts (workflow r) step) 1
                     (stepInput r step) zeroStepResult exec w [] of
                None \<Rightarrow> None
              | Some (stepResult, exec', w', calls) \<Rightarrow>
                  Some (exec'\<lparr>StepExec.Messages := StepResult.Messages stepResult,
                              StepExec.Output := StepResult.Output stepResult\<rparr>,
                        r\<lparr>vars := vars r ++ ContextUpdates stepResult\<rparr>, w', calls)))"

section \<open>The runner: Run\<close>

text \<open>
  \<open>ExecutionResult\<close> without its timestamps. \<open>ErrorMessage\<close> holds the error that the
  Go code renders into the message text; \<open>None\<close> is the empty string.
\<close>

record ExecutionResult =
  Result :: string
  TaskID :: string
  WorkflowName :: string
  Steps :: "StepExec list"
  FinalVars :: "string \<rightharpoonup> any"
  ErrorMessage :: "resolve_error option"

text \<open>The inner loop that looks for a finalize step among the ordered steps.\<close>

fun hasFinalize :: "WorkflowStep list \<Rightarrow> bool" where
  "hasFinalize [] = False"
| "hasFinalize (s # rest) = (if Template s = TemplateFinalize then True else hasFinalize rest)"

text \<open>
  The loop over the ordered steps: \<open>steps\<close> is the whole order (read by the finalize
  check), the third argument is what is left of it. Returning \<open>Some\<close> before the list
  is exhausted is the \<open>break\<close>.
\<close>

fun run_steps ::
  "'w registry \<Rightarrow> WorkflowStep list \<Rightarrow> WorkflowStep list \<Rightarrow> LocalRunner \<Rightarrow> 'w \<Rightarrow> StepExec list
     \<Rightarrow> bool \<Rightarrow> (LocalRunner \<times> 'w \<times> StepExec list \<times> bool) option"
where
  "run_steps registry steps [] r w recs workflowFailed = Some (r, w, recs, workflowFailed)"
| "run_steps registry steps (step # rest) r w recs workflowFailed =
     (case executeStep r registry step w of
        None \<Rightarrow> None
      | Some (stepExec, r', w', calls) \<Rightarrow>
          if Status stepExec = ''Failed'' then
            (if Template step \<noteq> TemplateFinalize then
               (if \<not> hasFinalize steps then Some (r', w', recs @ [stepExec], True)
                else run_steps registry steps rest r' w' (recs @ [stepExec]) True)
             else run_steps registry steps rest r' w' (recs @ [stepExec]) True)
          else run_steps registry steps rest r' w' (recs @ [stepExec]) workflowFailed)"

definition Run ::
  "LocalRunner \<Rightarrow> 'w registry \<Rightarrow> string list \<Rightarrow> 'w
     \<Rightarrow> (ExecutionResult \<times> LocalRunner \<times> 'w) option"
where
  "Run r registry keyOrder w =
     (let result = \<lparr>Result = '''', ExecutionResult.TaskID = cfgTaskID r,
                     ExecutionResult.WorkflowName = WorkflowDefinition.Name (workflow r),
                     ExecutionResult.Steps = [], FinalVars = Map.empty, ErrorMessage = None\<rparr>
      in case GetExecutionOrder (workflow r) keyOrder of
           Inl err \<Rightarrow> Some (result\<lparr>Result := ''Error'', ErrorMessage := Some err\<rparr>, r, w)
         | Inr steps \<Rightarrow>
             (case run_steps registry steps steps r w [] False of
                None \<Rightarrow> None
              | Some (r', w', recs, workflowFailed) \<Rightarrow>
                  Some (result\<lparr>ExecutionResult.Steps := recs,
                               Result := (if workflowFailed then ''Failed'' else ''Succeeded''),
                               FinalVars := vars r'\<rparr>, r', w')))"

text \<open>
  What the handler returns at its \<open>k\<close>-th consecutive invocation for one step
  (\<open>k = 1, 2, \<dots>\<close>, with \<open>Attempt = k\<close>), and the world it leaves behind: this is
  "the outcome on attempt \<open>k\<close>" of the specification.
\<close>

fun world_after :: "'w StepHandler \<Rightarrow> Deps \<Rightarrow> StepInput \<Rightarrow> 'w \<Rightarrow> nat \<Rightarrow> 'w" where
  "world_after h d inp w 0 = w"
| "world_after h d inp w (Suc k) =
     snd (h (inp\<lparr>Attempt := of_nat (Suc k)\<rparr>) d (world_after h d inp w k))"

definition outcome :: "'w StepHandler \<Rightarrow> Deps \<Rightarrow> StepInput \<Rightarrow> 'w \<Rightarrow> nat \<Rightarrow> StepResult" where
  "outcome h d inp w k = fst (h (inp\<lparr>Attempt := of_nat k\<rparr>) d (world_after h d inp w (k - 1)))"

text \<open>The log of the first \<open>n\<close> consecutive invocations.\<close>

definition attempts :: "'w StepHandler \<Rightarrow> Deps \<Rightarrow> StepInput \<Rightarrow> 'w \<Rightarrow> nat \<Rightarrow> call_log" where
  "attempts h d inp w n =
     map (\<lambda>k. (inp\<lparr>Attempt := of_nat k\<rparr>, outcome h d inp w k)) [1..<Suc n]"

section \<open>Example workflows and handlers\<close>

definition ex_deps :: Deps where
  "ex_deps = \<lparr>Workdir = ''.''\<rparr>"

definition ex_step :: "string \<Rightarrow> string list \<Rightarrow> StepTemplate \<Rightarrow> go_int \<Rightarrow> WorkflowStep" where
  "ex_step name depends template retries =
     \<lparr>WorkflowStep.Name = name, Depends = depends, Template = template,
      Params = Map.empty, Retries = retries\<rparr>"

definition ex_workflow :: "WorkflowStep list \<Rightarrow> WorkflowDefinition" where
  "ex_workflow steps =
     \<lparr>WorkflowDefinition.Name = ''smoke-test'', Description = '''', Platform = ''local'',
      HandlerPrefix = ''st'', Steps = steps, DefaultRetries = 0, TimeoutSeconds = 0\<rparr>"

definition ex_runner :: "WorkflowStep list \<Rightarrow> LocalRunner" where
  "ex_runner steps =
     \<lparr>cfgTaskID = ''task-1'', workflow = ex_workflow steps, params = Map.empty,
      vars = [''seen'' \<mapsto> AnyInt 0], deps = ex_deps\<rparr>"

text \<open>Example handlers; their world is a counter of invocations.\<close>

definition h_ok :: "nat StepHandler" where
  "h_ok input d w = (SetVar ''seen'' (AnyInt 1) (AddInfo ''done'' ''ex'' zeroStepResult), Suc w)"

definition h_fail :: "nat StepHandler" where
  "h_fail input d w = (SetVar ''seen'' (AnyInt 2) (AddError ''boom'' ''ex'' zeroStepResult), Suc w)"

definition h_skip :: "nat StepHandler" where
  "h_skip input d w = (Skip ''nothing to do'' zeroStepResult, Suc w)"

definition h_fail_skip :: "nat StepHandler" where
  "h_fail_skip input d w = (Skip ''giving up'' (AddError ''boom'' ''ex'' zeroStepResult), Suc w)"

definition h_second :: "nat StepHandler" where
  "h_second input d w = (if Attempt input = 2 then h_ok input d w else h_fail input d w)"

definition h_keys :: "nat StepHandler" where
  "h_keys input d w =
     (if Attempt input = 1 then (SetVar ''tried'' (AnyInt 1) (AddError ''boom'' ''ex'' zeroStepResult), Suc w)
      else (SetVar ''seen'' (AnyInt 1) (AddInfo ''done'' ''ex'' zeroStepResult), Suc w))"

definition ex_check :: "go_int \<Rightarrow> WorkflowStep" where
  "ex_check n = ex_step ''check'' [] TemplateAction n"

definition ex_registry :: "nat StepHandler \<Rightarrow> nat registry" where
  "ex_registry h = [''st-check'' \<mapsto> h]"

definition ex_input :: "go_int \<Rightarrow> go_int \<Rightarrow> StepInput" where
  "ex_input n a = (stepInput (ex_runner [ex_check n]) (ex_check n))\<lparr>Attempt := a\<rparr>"

definition ex_exec :: "string \<Rightarrow> string \<Rightarrow> StepResult \<Rightarrow> StepExec" where
  "ex_exec status err res =
     \<lparr>StepExec.Name = ''check'', Handler = ''st-check'', Status = status,
      Messages = StepResult.Messages res, Output = StepResult.Output res, Error = err\<rparr>"

text \<open>Two steps without dependencies: both are ready when the queue is seeded.\<close>

definition ex_pair :: "WorkflowStep list" where
  "ex_pair = [ex_step ''a'' [] TemplateAction 0, ex_step ''b'' [] TemplateAction 0]"

text \<open>
  Example step lists for the resolver: a chain listed against its dependencies, two steps
  with the same name, a dependency on a step that does not exist, a step that depends on
  itself, a step that does both, and two steps that depend on each other.
\<close>

definition ex_chain :: "WorkflowStep list" where
  "ex_chain = [ex_step ''deploy'' [''test''] TemplateAction 0,
               ex_step ''test'' [''build''] TemplateAction 0,
               ex_step ''build'' [] TemplateInit 0]"

definition ex_dup :: "WorkflowStep list" where
  "ex_dup = [ex_step ''a'' [] TemplateInit 0, ex_step ''a'' [] TemplateAction 0]"

definition ex_ghost :: "WorkflowStep list" where
  "ex_ghost = [ex_step ''a'' [] TemplateAction 0, ex_step ''b'' [''a'', ''ghost''] TemplateAction 0]"

definition ex_self :: "WorkflowStep list" where
  "ex_self = [ex_step ''a'' [] TemplateAction 0, ex_step ''b'' [''a'', ''b''] TemplateAction 0]"

definition ex_both :: "WorkflowStep list" where
  "ex_both = [ex_step ''a'' [''a'', ''ghost''] TemplateAction 0]"

definition ex_loop :: "WorkflowStep list" where
  "ex_loop = [ex_step ''a'' [''b''] TemplateAction 0, ex_step ''b'' [''a''] TemplateAction 0]"

text \<open>
  Example runs: \<open>b\<close> and \<open>c\<close> depend on \<open>a\<close>, and the handler of \<open>b\<close> always fails;
  \<open>ex_fin\<close> adds a finalize step.
\<close>

definition ex_halt :: "WorkflowStep list" where
  "ex_halt = [ex_step ''a'' [] TemplateInit 0, ex_step ''b'' [''a''] TemplateAction 0,
              ex_step ''c'' [''a''] TemplateAction 0]"

definition ex_fin :: "WorkflowStep list" where
  "ex_fin = [ex_step ''a'' [] TemplateInit 0, ex_step ''b'' [''a''] TemplateAction 0,
             ex_step ''c'' [''a''] TemplateAction 0,
             ex_step ''cleanup'' [''c''] TemplateFinalize 0]"

definition ex_run_registry :: "nat registry" where
  "ex_run_registry =
     [''st-a'' \<mapsto> h_ok, ''st-b'' \<mapsto> h_fail, ''st-c'' \<mapsto> h_ok, ''st-cleanup'' \<mapsto> h_ok]"

section \<open>Notions the claims about the resolver are stated in\<close>

text \<open>
  \<open>depends_on steps\<close> is the dependency relation of a step list: \<open>(d, n)\<close> is in it when a
  step named \<open>n\<close> declares the dependency \<open>d\<close>. \<open>deps_known\<close>: every declared dependency
  is the name of a step. \<open>deps_first order\<close>: in \<open>order\<close>, every declared dependency of
  every step is the name of a step at an earlier index.
\<close>

definition depends_on :: "WorkflowStep list \<Rightarrow> (string \<times> string) set" where
  "depends_on steps = {(d, n). \<exists>s \<in> set steps. WorkflowStep.Name s = n \<and> d \<in> set (Depends s)}"

definition deps_known :: "WorkflowStep list \<Rightarrow> bool" where
  "deps_known steps \<longleftrightarrow>
     set (concat (map Depends steps)) \<subseteq> set (map WorkflowStep.Name steps)"

definition deps_first :: "WorkflowStep list \<Rightarrow> bool" where
  "deps_first order \<longleftrightarrow>
     (\<forall>i < length order. \<forall>d \<in> set (Depends (order ! i)).
        \<exists>j < i. WorkflowStep.Name (order ! j) = d)"

text \<open>
  \<open>dependents_of steps d\<close> is what the first loop leaves in \<open>dependents[d]\<close>, and
  \<open>remaining done s\<close> counts the dependency entries of \<open>s\<close> that are not among the names
  already output: the value the queue loop keeps in \<open>inDegree\<close>.
\<close>

definition dependents_of :: "WorkflowStep list \<Rightarrow> string \<Rightarrow> string list" where
  "dependents_of steps d =
     concat (map (\<lambda>s. replicate (count_list (Depends s) d) (WorkflowStep.Name s)) steps)"

definition remaining :: "string list \<Rightarrow> WorkflowStep \<Rightarrow> int" where
  "remaining done s = int (length (filter (\<lambda>d. d \<notin> set done) (Depends s)))"

text \<open>
  The invariant of the queue loop, for a step list with distinct names: the names output
  and the names queued are all different, the output consists of steps, \<open>inDegree\<close> holds
  \<open>remaining\<close> for every step, the queue holds exactly the steps that are ready and not
  yet output, and the output so far has its dependencies first.
\<close>

definition kahn_inv ::
  "WorkflowStep list \<Rightarrow> string list \<Rightarrow> degree_map \<Rightarrow> WorkflowStep list \<Rightarrow> bool"
where
  "kahn_inv steps queue inDegree order \<longleftrightarrow>
     distinct (map WorkflowStep.Name order @ queue) \<and>
     set order \<subseteq> set steps \<and>
     set queue \<subseteq> set (map WorkflowStep.Name steps) \<and>
     (\<forall>s \<in> set steps.
        fmlookup inDegree (WorkflowStep.Name s)
          = Some (remaining (map WorkflowStep.Name order) s)) \<and>
     (\<forall>s \<in> set steps.
        (WorkflowStep.Name s \<in> set queue) =
          (WorkflowStep.Name s \<notin> set (map WorkflowStep.Name order) \<and>
           remaining (map WorkflowStep.Name order) s = 0)) \<and>
     deps_first order"

section \<open>The reference the loop of Run is compared with\<close>

text \<open>
  \<open>exec_steps\<close> executes the steps of a list one after another, whatever their outcome,
  threading the runner and the world and appending each record: the reference that the
  loop of \<open>Run\<close> is compared with.
\<close>

fun exec_steps ::
  "'w registry \<Rightarrow> WorkflowStep list \<Rightarrow> LocalRunner \<Rightarrow> 'w \<Rightarrow> StepExec list
     \<Rightarrow> (LocalRunner \<times> 'w \<times> StepExec list) option"
where
  "exec_steps registry [] r w recs = Some (r, w, recs)"
| "exec_steps registry (step # rest) r w recs =
     (case executeStep r registry step w of
        None \<Rightarrow> None
      | Some (stepExec, r', w', calls) \<Rightarrow> exec_steps registry rest r' w' (recs @ [stepExec]))"

section \<open>Machine integers\<close>

lemma sint_succ: "sint (x::64 word) < 2^63 - 1 \<Longrightarrow> sint (x + 1) = sint x + 1"
proof -
  assume a: "sint x < 2^63 - 1"
  have lo: "- (2^63) \<le> sint x" using sint_ge [of x] by simp
  have "sint (x + 1) = signed_take_bit 63 (sint x + 1)"
    by (simp add: sint_word_ariths)
  also have "\<dots> = sint x + 1"
    using a lo by (intro signed_take_bit_int_eq_self) auto
  finally show ?thesis .
qed

lemma sint_of_nat_small: "k < 2^63 \<Longrightarrow> sint (of_nat k :: 64 word) = int k"
proof -
  assume a: "k < 2^63"
  have "sint (of_nat k :: 64 word) = signed_take_bit 63 (int k)"
    by (simp add: signed_of_nat)
  also have "\<dots> = int k"
    using a by (intro signed_take_bit_int_eq_self) auto
  finally show ?thesis .
qed

lemma sint_GetRetries:
  "sint (GetRetries w step) =
     (if 0 < sint (Retries step) then sint (Retries step)
      else if 0 < sint (DefaultRetries w) then sint (DefaultRetries w) else 0)"
  by (simp add: GetRetries_def word_sless_alt)

lemma GetRetries_nonneg: "0 \<le> sint (GetRetries w step)"
  by (simp add: sint_GetRetries)

lemma sint_maxAttempts:
  "sint (GetRetries w step) < 2^63 - 1 \<Longrightarrow> sint (maxAttempts w step) = sint (GetRetries w step) + 1"
  by (simp add: maxAttempts_def sint_succ)

subsection \<open>The retry loop\<close>

lemma retry_loop_input_irrelevant:
  "retry_loop h d M a (inp\<lparr>Attempt := x\<rparr>) res exec w calls = retry_loop h d M a inp res exec w calls"
  by (subst retry_loop.simps, subst (2) retry_loop.simps) (simp cong: if_cong split: prod.split)

lemma retry_loop_exit:
  "\<not> a <=s M \<Longrightarrow> retry_loop h d M a inp res exec w calls = Some (res, exec, w, calls)"
  by (subst retry_loop.simps) simp

lemma retry_loop_skip:
  "a <=s M \<Longrightarrow> h (inp\<lparr>Attempt := a\<rparr>) d w = (res', w') \<Longrightarrow> skip_requested res' \<Longrightarrow>
   retry_loop h d M a inp res exec w calls =
     Some (res', exec\<lparr>Status := ''Skipped'', Error := skip_reason res'\<rparr>, w',
           calls @ [(inp\<lparr>Attempt := a\<rparr>, res')])"
  by (subst retry_loop.simps) simp

lemma retry_loop_success:
  "a <=s M \<Longrightarrow> h (inp\<lparr>Attempt := a\<rparr>) d w = (res', w') \<Longrightarrow> \<not> skip_requested res' \<Longrightarrow>
   \<not> HasErrors res' \<Longrightarrow>
   retry_loop h d M a inp res exec w calls =
     Some (res', exec\<lparr>Status := ''Succeeded''\<rparr>, w', calls @ [(inp\<lparr>Attempt := a\<rparr>, res')])"
  by (subst retry_loop.simps) simp

lemma retry_loop_retry:
  "a <=s M \<Longrightarrow> h (inp\<lparr>Attempt := a\<rparr>) d w = (res', w') \<Longrightarrow> \<not> skip_requested res' \<Longrightarrow>
   HasErrors res' \<Longrightarrow>
   retry_loop h d M a inp res exec w calls =
     retry_loop h d M (a + 1) inp res'
       (if a = M then exec\<lparr>Status := ''Failed''\<rparr> else exec) w'
       (calls @ [(inp\<lparr>Attempt := a\<rparr>, res')])"
  by (subst retry_loop.simps) (simp add: retry_loop_input_irrelevant)

lemma handler_at:
  "1 \<le> k \<Longrightarrow> h (inp\<lparr>Attempt := of_nat k\<rparr>) d (world_after h d inp w (k - 1)) =
     (outcome h d inp w k, world_after h d inp w k)"
  by (cases k) (simp_all add: outcome_def)

lemma retry_loop_advance:
  assumes fails: "\<forall>k. a \<le> k \<and> k < b \<longrightarrow>
            HasErrors (outcome h d inp w0 k) \<and> \<not> skip_requested (outcome h d inp w0 k)"
    and a: "1 \<le> a" and ab: "a \<le> b" and bM: "int b \<le> sint M"
  shows "retry_loop h d M (of_nat a) inp res exec (world_after h d inp w0 (a - 1)) calls =
         retry_loop h d M (of_nat b) inp (if a = b then res else outcome h d inp w0 (b - 1)) exec
           (world_after h d inp w0 (b - 1))
           (calls @ map (\<lambda>k. (inp\<lparr>Attempt := of_nat k\<rparr>, outcome h d inp w0 k)) [a..<b])"
  using ab
proof (induction rule: dec_induct)
  case base
  show ?case by simp
next
  case (step n)
  have M63: "sint M < 2^63" using sint_lt [of M] by simp
  have "int n < 2^63" using step.hyps bM M63 by linarith
  then have n63: "n < 2^63" by (metis of_nat_less_iff of_nat_numeral of_nat_power)
  have sn: "sint (of_nat n :: 64 word) = int n" using n63 by (rule sint_of_nat_small)
  have le: "(of_nat n :: 64 word) <=s M" using sn step.hyps bM by (simp add: word_sle_eq)
  have ne: "(of_nat n :: 64 word) \<noteq> M" using sn step.hyps bM by auto
  have n1: "1 \<le> n" using a step.hyps by simp
  have f: "HasErrors (outcome h d inp w0 n)" "\<not> skip_requested (outcome h d inp w0 n)"
    using fails step.hyps by auto
  have "retry_loop h d M (of_nat n) inp (if a = n then res else outcome h d inp w0 (n - 1)) exec
           (world_after h d inp w0 (n - 1))
           (calls @ map (\<lambda>k. (inp\<lparr>Attempt := of_nat k\<rparr>, outcome h d inp w0 k)) [a..<n])
        = retry_loop h d M (of_nat n + 1) inp (outcome h d inp w0 n) exec (world_after h d inp w0 n)
           ((calls @ map (\<lambda>k. (inp\<lparr>Attempt := of_nat k\<rparr>, outcome h d inp w0 k)) [a..<n])
              @ [(inp\<lparr>Attempt := of_nat n\<rparr>, outcome h d inp w0 n)])"
    using retry_loop_retry [where h=h and inp=inp and d=d and M=M, OF le handler_at [OF n1, of h inp d w0] f(2) f(1)] ne by simp
  then show ?case using step.IH step.hyps by (simp add: add.commute)
qed

lemma attempts_Suc:
  "attempts h d inp w (Suc n) =
     attempts h d inp w n @ [(inp\<lparr>Attempt := of_nat (Suc n)\<rparr>, outcome h d inp w (Suc n))]"
  by (simp add: attempts_def)

lemma length_attempts: "length (attempts h d inp w n) = n"
  by (simp add: attempts_def)

lemma retry_loop_to:
  assumes "\<forall>k. 1 \<le> k \<and> k < b \<longrightarrow>
            HasErrors (outcome h d inp w0 k) \<and> \<not> skip_requested (outcome h d inp w0 k)"
    and "1 \<le> b" and "int b \<le> sint M"
  shows "retry_loop h d M 1 inp res exec w0 [] =
         retry_loop h d M (of_nat b) inp (if 1 = b then res else outcome h d inp w0 (b - 1)) exec
           (world_after h d inp w0 (b - 1)) (attempts h d inp w0 (b - 1))"
proof -
  have "[1..<b] = [1..<Suc (b - 1)]" using assms(2) by simp
  then show ?thesis
    using retry_loop_advance [where a=1 and b=b and h=h and d=d and inp=inp and ?w0.0=w0 and M=M
        and res=res and exec=exec and calls="[]"] assms
    by (simp add: attempts_def)
qed

lemma of_nat_sle:
  "k < 2^63 \<Longrightarrow> ((of_nat k :: 64 word) <=s M) = (int k \<le> sint M)"
  by (simp add: word_sle_eq sint_of_nat_small)

lemma small_of_le_sint:
  fixes M :: "64 word" assumes "int b \<le> sint M" shows "b < 2^63"
proof -
  have "int b < 2^63" using assms sint_lt [of M] by simp
  then show ?thesis by (metis of_nat_less_iff of_nat_numeral of_nat_power)
qed

lemma retry_loop_succeeds_at:
  assumes fails: "\<forall>k. 1 \<le> k \<and> k < K \<longrightarrow>
            HasErrors (outcome h d inp w0 k) \<and> \<not> skip_requested (outcome h d inp w0 k)"
    and ok: "\<not> HasErrors (outcome h d inp w0 K)" "\<not> skip_requested (outcome h d inp w0 K)"
    and K: "1 \<le> K" "int K \<le> sint M"
  shows "retry_loop h d M 1 inp res exec w0 [] =
         Some (outcome h d inp w0 K, exec\<lparr>Status := ''Succeeded''\<rparr>,
               world_after h d inp w0 K, attempts h d inp w0 K)"
proof -
  have le: "(of_nat K :: 64 word) <=s M"
    using K small_of_le_sint [OF K(2)] by (simp add: of_nat_sle)
  obtain j where j: "K = Suc j" using K(1) by (cases K) auto
  show ?thesis
    unfolding retry_loop_to [OF fails K]
    using retry_loop_success [where h=h and inp=inp and d=d and M=M,
        OF le handler_at [OF K(1), of h inp d w0] ok(2) ok(1)]
    by (simp add: j attempts_Suc)
qed

lemma retry_loop_skips_at:
  assumes fails: "\<forall>k. 1 \<le> k \<and> k < K \<longrightarrow>
            HasErrors (outcome h d inp w0 k) \<and> \<not> skip_requested (outcome h d inp w0 k)"
    and skip: "skip_requested (outcome h d inp w0 K)"
    and K: "1 \<le> K" "int K \<le> sint M"
  shows "retry_loop h d M 1 inp res exec w0 [] =
         Some (outcome h d inp w0 K,
               exec\<lparr>Status := ''Skipped'', Error := skip_reason (outcome h d inp w0 K)\<rparr>,
               world_after h d inp w0 K, attempts h d inp w0 K)"
proof -
  have le: "(of_nat K :: 64 word) <=s M"
    using K small_of_le_sint [OF K(2)] by (simp add: of_nat_sle)
  obtain j where j: "K = Suc j" using K(1) by (cases K) auto
  show ?thesis
    unfolding retry_loop_to [OF fails K]
    using retry_loop_skip [where h=h and inp=inp and d=d and M=M,
        OF le handler_at [OF K(1), of h inp d w0] skip]
    by (simp add: j attempts_Suc)
qed

lemma retry_loop_all_fail:
  assumes fails: "\<forall>k. 1 \<le> k \<and> k < Suc K \<longrightarrow>
            HasErrors (outcome h d inp w0 k) \<and> \<not> skip_requested (outcome h d inp w0 k)"
    and K: "1 \<le> K" "int K = sint M" and M: "sint M < 2^63 - 1"
  shows "retry_loop h d M 1 inp res exec w0 [] =
         Some (outcome h d inp w0 K, exec\<lparr>Status := ''Failed''\<rparr>,
               world_after h d inp w0 K, attempts h d inp w0 K)"
proof -
  have K2: "int K \<le> sint M" using K by simp
  have small: "K < 2^63" by (rule small_of_le_sint [OF K2])
  have le: "(of_nat K :: 64 word) <=s M"
    using K small by (simp add: of_nat_sle)
  have eq: "(of_nat K :: 64 word) = M"
    using K(2) sint_of_nat_small [OF small] by (metis signed_word_eqI)
  have gt: "\<not> (M + 1 <=s M)" using M by (simp add: word_sle_eq sint_succ)
  have fails': "\<forall>k. 1 \<le> k \<and> k < K \<longrightarrow>
            HasErrors (outcome h d inp w0 k) \<and> \<not> skip_requested (outcome h d inp w0 k)"
    using fails by auto
  have fK: "HasErrors (outcome h d inp w0 K)" "\<not> skip_requested (outcome h d inp w0 K)"
    using fails K(1) by auto
  obtain j where j: "K = Suc j" using K(1) by (cases K) auto
  have "retry_loop h d M 1 inp res exec w0 [] =
        retry_loop h d M (of_nat K) inp (if 1 = K then res else outcome h d inp w0 (K - 1)) exec
           (world_after h d inp w0 (K - 1)) (attempts h d inp w0 (K - 1))"
    by (rule retry_loop_to [OF fails' K(1) K2])
  also have "\<dots> = retry_loop h d M (of_nat K + 1) inp (outcome h d inp w0 K)
           (exec\<lparr>Status := ''Failed''\<rparr>) (world_after h d inp w0 K)
           (attempts h d inp w0 (K - 1) @ [(inp\<lparr>Attempt := of_nat K\<rparr>, outcome h d inp w0 K)])"
    using retry_loop_retry [where h=h and inp=inp and d=d and M=M,
        OF le handler_at [OF K(1), of h inp d w0] fK(2) fK(1)] eq
    by simp
  also have "\<dots> = Some (outcome h d inp w0 K, exec\<lparr>Status := ''Failed''\<rparr>,
           world_after h d inp w0 K,
           attempts h d inp w0 (K - 1) @ [(inp\<lparr>Attempt := of_nat K\<rparr>, outcome h d inp w0 K)])"
    using gt unfolding eq by (rule retry_loop_exit)
  finally show ?thesis by (simp add: j attempts_Suc)
qed

lemma retry_loop_returns:
  assumes M: "sint M < 2^63 - 1"
  shows "\<exists>y. retry_loop h d M a inp res exec w calls = Some y"
proof (induction "nat (sint M - sint a + 1)" arbitrary: a inp res exec w calls)
  case 0
  then have "\<not> a <=s M" by (simp add: word_sle_eq)
  then show ?case by (simp add: retry_loop_exit)
next
  case (Suc n)
  show ?case
  proof (cases "a <=s M")
    case False
    then show ?thesis by (simp add: retry_loop_exit)
  next
    case True
    obtain res' w' where hw: "h (inp\<lparr>Attempt := a\<rparr>) d w = (res', w')" by force
    have sa: "sint (a + 1) = sint a + 1" using True M by (simp add: word_sle_eq sint_succ)
    have n: "n = nat (sint M - sint (a + 1) + 1)" using Suc.hyps(2) sa by simp
    show ?thesis
    proof (cases "skip_requested res'")
      case True
      then show ?thesis using retry_loop_skip [where h=h and inp=inp and d=d, OF \<open>a <=s M\<close> hw] by simp
    next
      case ns: False
      show ?thesis
      proof (cases "HasErrors res'")
        case False
        then show ?thesis using retry_loop_success [where h=h and inp=inp and d=d, OF \<open>a <=s M\<close> hw ns] by simp
      next
        case True
        show ?thesis
          unfolding retry_loop_retry [where h=h and inp=inp and d=d, OF \<open>a <=s M\<close> hw ns True]
          by (rule Suc.hyps(1) [OF n])
      qed
    qed
  qed
qed

lemma upt_0_Suc_map: "map f [0..<Suc n] = f 0 # map (\<lambda>j. f (Suc j)) [0..<n]"
  by (simp add: upt_conv_Cons map_Suc_upt [symmetric] del: upt_Suc)

lemma sle_succ:
  fixes a M :: "64 word"
  assumes "a <=s M" "a \<noteq> M" shows "a + 1 <=s M"
proof -
  have lt: "sint a < sint M" using assms by (metis word_sle_eq order_le_less signed_word_eqI)
  have "sint M < 2^63" using sint_lt [of M] by simp
  then have "sint (a + 1) = sint a + 1" using lt by (intro sint_succ) linarith
  then show ?thesis using lt by (simp add: word_sle_eq)
qed

lemma retry_loop_result_aux:
  "retry_loop h d M a inp res exec w calls = Some y \<Longrightarrow>
   (\<exists>new. snd (snd (snd y)) = calls @ new \<and>
      (\<forall>c \<in> set new. (fst c)\<lparr>Attempt := 0\<rparr> = inp\<lparr>Attempt := 0\<rparr>) \<and>
      map (Attempt \<circ> fst) new = map (\<lambda>j. a + of_nat j) [0..<length new] \<and>
      StepExec.Name (fst (snd y)) = StepExec.Name exec \<and>
      Handler (fst (snd y)) = Handler exec \<and>
      (new = [] \<longrightarrow> fst y = res \<and> fst (snd y) = exec \<and> \<not> a <=s M) \<and>
      (new \<noteq> [] \<longrightarrow> fst y = snd (last new) \<and> a <=s M \<and>
         Status (fst (snd y)) \<in> {''Succeeded'', ''Failed'', ''Skipped''}))"
proof (induction h d M a inp res exec w calls y rule: retry_loop.raw_induct [rotated 1, consumes 1, case_names step])
  case (step loop h d M a inp res exec w calls y)
  note 1 = step
  show ?case
  proof (cases "a <=s M")
    case False
    with 1(2) have "y = (res, exec, w, calls)" by simp
    with False show ?thesis by simp
  next
    case le: True
    obtain res' w' where hw: "h (inp\<lparr>Attempt := a\<rparr>) d w = (res', w')" by force
    let ?c = "(inp\<lparr>Attempt := a\<rparr>, res')"
    show ?thesis
    proof (cases "skip_requested res'")
      case True
      with 1(2) le hw have "y = (res', exec\<lparr>Status := ''Skipped'', Error := skip_reason res'\<rparr>, w', calls @ [?c])"
        by simp
      then show ?thesis using le by (intro exI [of _ "[?c]"]) simp
    next
      case ns: False
      show ?thesis
      proof (cases "HasErrors res'")
        case False
        with 1(2) le hw ns have "y = (res', exec\<lparr>Status := ''Succeeded''\<rparr>, w', calls @ [?c])"
          by simp
        then show ?thesis using le by (intro exI [of _ "[?c]"]) simp
      next
        case True
        let ?exec = "if a = M then exec\<lparr>Status := ''Failed''\<rparr> else exec"
        from 1(2) le hw ns True
        have rec: "loop h d M (a + 1) (inp\<lparr>Attempt := a\<rparr>) res' ?exec w' (calls @ [?c]) = Some y"
          by simp
        from 1(1) [OF rec] obtain new where new:
          "snd (snd (snd y)) = (calls @ [?c]) @ new"
          "\<forall>c \<in> set new. (fst c)\<lparr>Attempt := 0\<rparr> = inp\<lparr>Attempt := a\<rparr>\<lparr>Attempt := 0\<rparr>"
          "map (Attempt \<circ> fst) new = map (\<lambda>j. a + 1 + of_nat j) [0..<length new]"
          "StepExec.Name (fst (snd y)) = StepExec.Name ?exec"
          "Handler (fst (snd y)) = Handler ?exec"
          "new = [] \<longrightarrow> fst y = res' \<and> fst (snd y) = ?exec \<and> \<not> a + 1 <=s M"
          "new \<noteq> [] \<longrightarrow> fst y = snd (last new) \<and> a + 1 <=s M \<and>
              Status (fst (snd y)) \<in> {''Succeeded'', ''Failed'', ''Skipped''}"
          by blast
        have numbering: "map (Attempt \<circ> fst) (?c # new) = map (\<lambda>j. a + of_nat j) [0..<length (?c # new)]"
          using new(3) by (simp add: upt_0_Suc_map add.assoc del: upt_Suc)
        have st: "Status (fst (snd y)) \<in> {''Succeeded'', ''Failed'', ''Skipped''}"
        proof (cases "new = []")
          case True
          then have "\<not> a + 1 <=s M" "fst (snd y) = ?exec" using new(6) by auto
          moreover from this(1) have "a = M" using sle_succ [OF le] by blast
          ultimately show ?thesis by simp
        next
          case False
          then show ?thesis using new(7) by simp
        qed
        have lastc: "fst y = snd (last (?c # new))" using new(6,7) by (cases "new = []") auto
        have nm: "StepExec.Name (fst (snd y)) = StepExec.Name exec" "Handler (fst (snd y)) = Handler exec"
          using new(4,5) by (simp_all split: if_splits)
        have inputs: "\<forall>c \<in> set (?c # new). (fst c)\<lparr>Attempt := 0\<rparr> = inp\<lparr>Attempt := 0\<rparr>"
          using new(2) by simp
        have log: "snd (snd (snd y)) = calls @ (?c # new)" using new(1) by simp
        show ?thesis
          using log inputs numbering nm st lastc le by (intro exI [of _ "?c # new"]) blast
      qed
    qed
  qed
qed

lemma stepInput_Attempt: "(stepInput r step)\<lparr>Attempt := 1\<rparr> = stepInput r step"
  by (simp add: stepInput_def)

lemma attempts_nth:
  "i < n \<Longrightarrow> attempts h d inp w n ! i = (inp\<lparr>Attempt := of_nat (Suc i)\<rparr>, outcome h d inp w (Suc i))"
  by (simp add: attempts_def nth_append del: upt_Suc)

lemma attempts_last:
  "1 \<le> n \<Longrightarrow> last (attempts h d inp w n) = (inp\<lparr>Attempt := of_nat n\<rparr>, outcome h d inp w n)"
  by (cases n) (simp_all add: attempts_Suc)

lemma attempts_nonempty: "1 \<le> n \<Longrightarrow> attempts h d inp w n \<noteq> []"
  by (cases n) (simp_all add: attempts_Suc)

lemma retry_loop_total:
  assumes M: "sint M < 2^63 - 1" and M1: "1 \<le> sint M"
  shows "\<exists>n exec'. 1 \<le> n \<and> int n \<le> sint M \<and>
           retry_loop h d M 1 inp res exec w0 [] =
             Some (outcome h d inp w0 n, exec', world_after h d inp w0 n, attempts h d inp w0 n) \<and>
           (\<forall>k. 1 \<le> k \<and> k < n \<longrightarrow>
              HasErrors (outcome h d inp w0 k) \<and> \<not> skip_requested (outcome h d inp w0 k)) \<and>
           exec' = (if skip_requested (outcome h d inp w0 n)
                    then exec\<lparr>Status := ''Skipped'', Error := skip_reason (outcome h d inp w0 n)\<rparr>
                    else if \<not> HasErrors (outcome h d inp w0 n) then exec\<lparr>Status := ''Succeeded''\<rparr>
                    else exec\<lparr>Status := ''Failed''\<rparr>) \<and>
           (HasErrors (outcome h d inp w0 n) \<and> \<not> skip_requested (outcome h d inp w0 n)
              \<longrightarrow> int n = sint M)"
proof -
  define P where "P k \<longleftrightarrow>
    HasErrors (outcome h d inp w0 k) \<and> \<not> skip_requested (outcome h d inp w0 k)" for k
  define N where "N = nat (sint M)"
  have N: "1 \<le> N" "int N = sint M" using M1 by (simp_all add: N_def)
  show ?thesis
  proof (cases "\<forall>k. 1 \<le> k \<and> k < Suc N \<longrightarrow> P k")
    case True
    then have fails: "\<forall>k. 1 \<le> k \<and> k < Suc N \<longrightarrow>
        HasErrors (outcome h d inp w0 k) \<and> \<not> skip_requested (outcome h d inp w0 k)"
      by (simp add: P_def)
    have PN: "HasErrors (outcome h d inp w0 N)" "\<not> skip_requested (outcome h d inp w0 N)"
      using fails N(1) by auto
    have below: "\<forall>k. 1 \<le> k \<and> k < N \<longrightarrow>
        HasErrors (outcome h d inp w0 k) \<and> \<not> skip_requested (outcome h d inp w0 k)"
      using fails by auto
    have run: "retry_loop h d M 1 inp res exec w0 [] =
         Some (outcome h d inp w0 N, exec\<lparr>Status := ''Failed''\<rparr>,
               world_after h d inp w0 N, attempts h d inp w0 N)"
      by (rule retry_loop_all_fail [OF fails N M])
    show ?thesis
      apply (rule exI [of _ N])
      apply (rule exI [of _ "exec\<lparr>Status := ''Failed''\<rparr>"])
      using N run below PN by simp
  next
    case False
    then obtain k0 where k0: "1 \<le> k0" "k0 < Suc N" "\<not> P k0" by auto
    define K where "K = (LEAST k. 1 \<le> k \<and> \<not> P k)"
    have K: "1 \<le> K \<and> \<not> P K"
      unfolding K_def using k0 by (intro LeastI [of "\<lambda>k. 1 \<le> k \<and> \<not> P k" k0]) simp
    have "K \<le> k0" unfolding K_def using k0 by (intro Least_le) simp
    then have KM: "int K \<le> sint M" using k0(2) N(2) by simp
    have "P k" if "1 \<le> k" "k < K" for k
      using not_less_Least [of k "\<lambda>k. 1 \<le> k \<and> \<not> P k"] that unfolding K_def by blast
    then have below: "\<forall>k. 1 \<le> k \<and> k < K \<longrightarrow>
        HasErrors (outcome h d inp w0 k) \<and> \<not> skip_requested (outcome h d inp w0 k)"
      by (simp add: P_def)
    have K1: "1 \<le> K" using K by simp
    show ?thesis
    proof (cases "skip_requested (outcome h d inp w0 K)")
      case True
      have run: "retry_loop h d M 1 inp res exec w0 [] =
         Some (outcome h d inp w0 K,
               exec\<lparr>Status := ''Skipped'', Error := skip_reason (outcome h d inp w0 K)\<rparr>,
               world_after h d inp w0 K, attempts h d inp w0 K)"
        by (rule retry_loop_skips_at [OF below True K1 KM])
      show ?thesis
        apply (rule exI [of _ K])
        apply (rule exI [of _ "exec\<lparr>Status := ''Skipped'', Error := skip_reason (outcome h d inp w0 K)\<rparr>"])
        using K1 KM run below True by simp
    next
      case ns: False
      then have ok: "\<not> HasErrors (outcome h d inp w0 K)" using K by (simp add: P_def)
      have run: "retry_loop h d M 1 inp res exec w0 [] =
         Some (outcome h d inp w0 K, exec\<lparr>Status := ''Succeeded''\<rparr>,
               world_after h d inp w0 K, attempts h d inp w0 K)"
        by (rule retry_loop_succeeds_at [OF below ok ns K1 KM])
      show ?thesis
        apply (rule exI [of _ K])
        apply (rule exI [of _ "exec\<lparr>Status := ''Succeeded''\<rparr>"])
        using K1 KM run below ns ok by simp
    qed
  qed
qed

section \<open>executeStep\<close>

lemmas ex_defs = ex_deps_def ex_step_def ex_workflow_def ex_runner_def h_ok_def h_fail_def
  h_skip_def h_fail_skip_def h_second_def Skip_def AddError_def AddInfo_def SetVar_def
  zeroStepResult_def HasErrors_def skip_requested_def skip_reason_def SeverityError_def
  SeverityInfo_def GetHandlerName_def Get_def newStepExec_def stepInput_def mergeParams_def

lemma executeStep_not_found:
  "Get registry (GetHandlerName (workflow r) step) = None \<Longrightarrow>
   executeStep r registry step w =
     Some ((newStepExec step (GetHandlerName (workflow r) step))
             \<lparr>Status := ''Failed'',
              Error := ''handler not found: '' @ GetHandlerName (workflow r) step\<rparr>, r, w, [])"
  by (simp add: executeStep_def Let_def)

lemma executeStep_found:
  "Get registry (GetHandlerName (workflow r) step) = Some h \<Longrightarrow>
   executeStep r registry step w =
     (case retry_loop h (deps r) (maxAttempts (workflow r) step) 1 (stepInput r step)
             zeroStepResult (newStepExec step (GetHandlerName (workflow r) step)) w [] of
        None \<Rightarrow> None
      | Some (stepResult, exec', w', calls) \<Rightarrow>
          Some (exec'\<lparr>StepExec.Messages := StepResult.Messages stepResult,
                      StepExec.Output := StepResult.Output stepResult\<rparr>,
                r\<lparr>vars := vars r ++ ContextUpdates stepResult\<rparr>, w', calls))"
  by (simp add: executeStep_def Let_def)

text \<open>
  Claim C9. When the handler lookup fails, \<open>executeStep\<close> returns a record with status
  Failed and the not-found error, invokes no handler (the log is empty), leaves the runner
  and with it the shared variables unchanged, and records neither messages nor output.
\<close>

theorem handler_not_found_leaves_vars:
  assumes "Get registry (GetHandlerName (workflow r) step) = None"
  shows "\<exists>exec. executeStep r registry step w = Some (exec, r, w, []) \<and>
           Status exec = ''Failed'' \<and>
           Error exec = ''handler not found: '' @ GetHandlerName (workflow r) step \<and>
           StepExec.Messages exec = [] \<and> StepExec.Output exec = Map.empty"
  using executeStep_not_found [OF assms] by (simp add: newStepExec_def)

theorem handler_not_found_leaves_vars_witness:
  "\<exists>exec. executeStep (ex_runner [ex_step ''check'' [] TemplateAction 3]) Map.empty
             (ex_step ''check'' [] TemplateAction 3) (0::nat)
           = Some (exec, ex_runner [ex_step ''check'' [] TemplateAction 3], 0, []) \<and>
         Status exec = ''Failed'' \<and>
         Error exec = ''handler not found: st-check'' \<and>
         StepExec.Messages exec = [] \<and> StepExec.Output exec = Map.empty"
  using handler_not_found_leaves_vars [of Map.empty "ex_runner [ex_step ''check'' [] TemplateAction 3]"
      "ex_step ''check'' [] TemplateAction 3" "0::nat"]
  by (simp add: ex_defs)

lemmas ex_defs2 = ex_defs ex_check_def ex_registry_def ex_input_def ex_exec_def
  maxAttempts_def GetRetries_def word_sle_eq word_sless_alt TemplateAction_def

lemma executeStep_loop:
  assumes found: "Get registry (GetHandlerName (workflow r) step) = Some h"
    and loop: "retry_loop h (deps r) (maxAttempts (workflow r) step) 1 (stepInput r step)
             zeroStepResult (newStepExec step (GetHandlerName (workflow r) step)) w [] =
             Some (res, exec0, w', calls)"
  shows "executeStep r registry step w =
           Some (exec0\<lparr>StepExec.Messages := StepResult.Messages res,
                       StepExec.Output := StepResult.Output res\<rparr>,
                 r\<lparr>vars := vars r ++ ContextUpdates res\<rparr>, w', calls)"
  unfolding executeStep_found [OF found] loop by simp

lemma executeStep_result:
  assumes found: "Get registry (GetHandlerName (workflow r) step) = Some h"
    and run: "executeStep r registry step w = Some (exec, r', w', calls)"
  obtains res exec0 where
    "retry_loop h (deps r) (maxAttempts (workflow r) step) 1 (stepInput r step)
       zeroStepResult (newStepExec step (GetHandlerName (workflow r) step)) w [] =
       Some (res, exec0, w', calls)"
    "exec = exec0\<lparr>StepExec.Messages := StepResult.Messages res,
                      StepExec.Output := StepResult.Output res\<rparr>"
    "r' = r\<lparr>vars := vars r ++ ContextUpdates res\<rparr>"
  using run unfolding executeStep_found [OF found] by (auto split: option.splits)

lemma executeStep_total:
  assumes found: "Get registry (GetHandlerName (workflow r) step) = Some h"
    and budget: "sint (GetRetries (workflow r) step) < 2^63 - 2"
  shows "\<exists>n exec. 1 \<le> n \<and> int n \<le> sint (GetRetries (workflow r) step) + 1 \<and>
           executeStep r registry step w =
             Some (exec,
                   r\<lparr>vars := vars r ++ ContextUpdates (outcome h (deps r) (stepInput r step) w n)\<rparr>,
                   world_after h (deps r) (stepInput r step) w n,
                   attempts h (deps r) (stepInput r step) w n) \<and>
           (\<forall>k. 1 \<le> k \<and> k < n \<longrightarrow>
              HasErrors (outcome h (deps r) (stepInput r step) w k) \<and>
              \<not> skip_requested (outcome h (deps r) (stepInput r step) w k)) \<and>
           exec = (if skip_requested (outcome h (deps r) (stepInput r step) w n)
                   then (newStepExec step (GetHandlerName (workflow r) step))
                          \<lparr>Status := ''Skipped'',
                           Error := skip_reason (outcome h (deps r) (stepInput r step) w n)\<rparr>
                   else if \<not> HasErrors (outcome h (deps r) (stepInput r step) w n)
                   then (newStepExec step (GetHandlerName (workflow r) step))\<lparr>Status := ''Succeeded''\<rparr>
                   else (newStepExec step (GetHandlerName (workflow r) step))\<lparr>Status := ''Failed''\<rparr>)
                  \<lparr>StepExec.Messages := StepResult.Messages (outcome h (deps r) (stepInput r step) w n),
                   StepExec.Output := StepResult.Output (outcome h (deps r) (stepInput r step) w n)\<rparr> \<and>
           (HasErrors (outcome h (deps r) (stepInput r step) w n) \<and>
            \<not> skip_requested (outcome h (deps r) (stepInput r step) w n)
              \<longrightarrow> int n = sint (GetRetries (workflow r) step) + 1)"
proof -
  have M: "sint (maxAttempts (workflow r) step) = sint (GetRetries (workflow r) step) + 1"
    using budget by (intro sint_maxAttempts) simp
  have M2: "sint (maxAttempts (workflow r) step) < 2^63 - 1" using M budget by simp
  have M1: "1 \<le> sint (maxAttempts (workflow r) step)"
    using M GetRetries_nonneg [of "workflow r" step] by simp
  from retry_loop_total [OF M2 M1, of h "deps r" "stepInput r step" zeroStepResult
      "newStepExec step (GetHandlerName (workflow r) step)" w]
  obtain n exec' where n: "1 \<le> n" "int n \<le> sint (maxAttempts (workflow r) step)"
    and loop: "retry_loop h (deps r) (maxAttempts (workflow r) step) 1 (stepInput r step)
         zeroStepResult (newStepExec step (GetHandlerName (workflow r) step)) w [] =
       Some (outcome h (deps r) (stepInput r step) w n, exec',
             world_after h (deps r) (stepInput r step) w n,
             attempts h (deps r) (stepInput r step) w n)"
    and below: "\<forall>k. 1 \<le> k \<and> k < n \<longrightarrow>
              HasErrors (outcome h (deps r) (stepInput r step) w k) \<and>
              \<not> skip_requested (outcome h (deps r) (stepInput r step) w k)"
    and exec': "exec' = (if skip_requested (outcome h (deps r) (stepInput r step) w n)
                   then (newStepExec step (GetHandlerName (workflow r) step))
                          \<lparr>Status := ''Skipped'',
                           Error := skip_reason (outcome h (deps r) (stepInput r step) w n)\<rparr>
                   else if \<not> HasErrors (outcome h (deps r) (stepInput r step) w n)
                   then (newStepExec step (GetHandlerName (workflow r) step))\<lparr>Status := ''Succeeded''\<rparr>
                   else (newStepExec step (GetHandlerName (workflow r) step))\<lparr>Status := ''Failed''\<rparr>)"
    and last: "HasErrors (outcome h (deps r) (stepInput r step) w n) \<and>
            \<not> skip_requested (outcome h (deps r) (stepInput r step) w n)
              \<longrightarrow> int n = sint (maxAttempts (workflow r) step)"
    by blast
  show ?thesis
    apply (rule exI [of _ n])
    apply (rule exI [of _ "exec'\<lparr>StepExec.Messages := StepResult.Messages (outcome h (deps r) (stepInput r step) w n),
                   StepExec.Output := StepResult.Output (outcome h (deps r) (stepInput r step) w n)\<rparr>"])
    unfolding executeStep_loop [OF found loop]
    using n below last M exec' by simp
qed

lemma executeStep_skip_first:
  assumes found: "Get registry (GetHandlerName (workflow r) step) = Some h"
    and budget: "sint (GetRetries (workflow r) step) < 2^63 - 1"
    and skip: "skip_requested (fst (h (stepInput r step) (deps r) w))"
  shows "executeStep r registry step w =
     Some ((newStepExec step (GetHandlerName (workflow r) step))
             \<lparr>Status := ''Skipped'',
              Error := skip_reason (fst (h (stepInput r step) (deps r) w)),
              StepExec.Messages := StepResult.Messages (fst (h (stepInput r step) (deps r) w)),
              StepExec.Output := StepResult.Output (fst (h (stepInput r step) (deps r) w))\<rparr>,
           r\<lparr>vars := vars r ++ ContextUpdates (fst (h (stepInput r step) (deps r) w))\<rparr>,
           snd (h (stepInput r step) (deps r) w),
           [(stepInput r step, fst (h (stepInput r step) (deps r) w))])"
proof -
  have le: "1 <=s maxAttempts (workflow r) step"
    using sint_maxAttempts [OF budget] GetRetries_nonneg [of "workflow r" step]
    by (simp add: word_sle_eq)
  have hw: "h ((stepInput r step)\<lparr>Attempt := 1\<rparr>) (deps r) w =
      (fst (h (stepInput r step) (deps r) w), snd (h (stepInput r step) (deps r) w))"
    by (simp add: stepInput_Attempt)
  have loop: "retry_loop h (deps r) (maxAttempts (workflow r) step) 1 (stepInput r step)
       zeroStepResult (newStepExec step (GetHandlerName (workflow r) step)) w [] =
     Some (fst (h (stepInput r step) (deps r) w),
           (newStepExec step (GetHandlerName (workflow r) step))
             \<lparr>Status := ''Skipped'',
              Error := skip_reason (fst (h (stepInput r step) (deps r) w))\<rparr>,
           snd (h (stepInput r step) (deps r) w),
           [(stepInput r step, fst (h (stepInput r step) (deps r) w))])"
    using retry_loop_skip [where h=h and inp="stepInput r step" and d="deps r", OF le hw skip,
        of zeroStepResult "newStepExec step (GetHandlerName (workflow r) step)" "[]"]
    by (simp add: stepInput_Attempt)
  show ?thesis using executeStep_loop [OF found loop] by simp
qed

text \<open>
  Claim C5. For every retry count below \<open>2^63 - 1\<close>: when the outcome of the handler's
  first invocation carries the skip directive (\<open>FlowControl["skip"]\<close> is the boolean
  true), \<open>executeStep\<close> returns after exactly that one invocation, the status is Skipped
  (neither Failed nor Succeeded) and the error field holds the skip reason, the empty
  string when \<open>skip_reason\<close> is absent or not a string. The claim says "regardless of the
  configured retry budget", and that fails on the code: with
  \<open>retries: 9223372036854775807\<close> the budget \<open>GetRetries(step) + 1\<close> wraps to \<open>-2^63\<close>,
  a handler that would skip at once is never invoked, and the status stays empty.
\<close>

theorem skip_on_first_attempt:
  "(Get registry (GetHandlerName (workflow r) step) = Some h \<and>
    sint (GetRetries (workflow r) step) < 2^63 - 1 \<and>
    skip_requested (fst (h (stepInput r step) (deps r) w))
    \<longrightarrow> (\<exists>exec. executeStep r registry step w =
                 Some (exec,
                       r\<lparr>vars := vars r ++ ContextUpdates (fst (h (stepInput r step) (deps r) w))\<rparr>,
                       snd (h (stepInput r step) (deps r) w),
                       [(stepInput r step, fst (h (stepInput r step) (deps r) w))]) \<and>
               Status exec = ''Skipped'' \<and> Status exec \<noteq> ''Failed'' \<and>
               Status exec \<noteq> ''Succeeded'' \<and>
               Error exec = skip_reason (fst (h (stepInput r step) (deps r) w)))) \<and>
   sint (GetRetries (workflow (ex_runner [ex_check 9223372036854775807]))
           (ex_check 9223372036854775807)) = 9223372036854775807 \<and>
   skip_requested (fst (h_skip (stepInput (ex_runner [ex_check 9223372036854775807])
                                  (ex_check 9223372036854775807)) ex_deps 0)) \<and>
   executeStep (ex_runner [ex_check 9223372036854775807]) (ex_registry h_skip)
      (ex_check 9223372036854775807) 0 =
     Some (ex_exec '''' '''' zeroStepResult, ex_runner [ex_check 9223372036854775807], 0, [])"
proof (intro conjI impI)
  assume a: "Get registry (GetHandlerName (workflow r) step) = Some h \<and>
    sint (GetRetries (workflow r) step) < 2^63 - 1 \<and>
    skip_requested (fst (h (stepInput r step) (deps r) w))"
  then have found: "Get registry (GetHandlerName (workflow r) step) = Some h"
    and budget: "sint (GetRetries (workflow r) step) < 2^63 - 1"
    and skip: "skip_requested (fst (h (stepInput r step) (deps r) w))"
    by simp_all
  show "\<exists>exec. executeStep r registry step w =
                 Some (exec,
                       r\<lparr>vars := vars r ++ ContextUpdates (fst (h (stepInput r step) (deps r) w))\<rparr>,
                       snd (h (stepInput r step) (deps r) w),
                       [(stepInput r step, fst (h (stepInput r step) (deps r) w))]) \<and>
               Status exec = ''Skipped'' \<and> Status exec \<noteq> ''Failed'' \<and>
               Status exec \<noteq> ''Succeeded'' \<and>
               Error exec = skip_reason (fst (h (stepInput r step) (deps r) w))"
    unfolding executeStep_skip_first [OF found budget skip] by simp
next
  show "sint (GetRetries (workflow (ex_runner [ex_check 9223372036854775807]))
           (ex_check 9223372036854775807)) = 9223372036854775807"
    by (simp add: ex_defs2)
  show "skip_requested (fst (h_skip (stepInput (ex_runner [ex_check 9223372036854775807])
                                  (ex_check 9223372036854775807)) ex_deps 0))"
    by (simp add: ex_defs2)
  show "executeStep (ex_runner [ex_check 9223372036854775807]) (ex_registry h_skip)
      (ex_check 9223372036854775807) 0 =
     Some (ex_exec '''' '''' zeroStepResult, ex_runner [ex_check 9223372036854775807], 0, [])"
    by (simp add: executeStep_def Let_def retry_loop.simps ex_defs2)
qed

text \<open>
  The first part at a step with five retries whose handler skips at once: one invocation,
  with \<open>Attempt = 1\<close>, status Skipped and the reason in the error field.
\<close>

theorem skip_on_first_attempt_witness:
  "\<exists>exec. executeStep (ex_runner [ex_check 5]) (ex_registry h_skip) (ex_check 5) 0 =
            Some (exec, ex_runner [ex_check 5], 1,
                  [(ex_input 5 1, Skip ''nothing to do'' zeroStepResult)]) \<and>
          Status exec = ''Skipped'' \<and> Error exec = ''nothing to do''"
proof -
  have hyps: "Get (ex_registry h_skip) (GetHandlerName (workflow (ex_runner [ex_check 5])) (ex_check 5))
      = Some h_skip \<and>
    sint (GetRetries (workflow (ex_runner [ex_check 5])) (ex_check 5)) < 2^63 - 1 \<and>
    skip_requested (fst (h_skip (stepInput (ex_runner [ex_check 5]) (ex_check 5))
                           (deps (ex_runner [ex_check 5])) 0))"
    by (simp add: ex_defs2)
  have same: "(ex_runner [ex_check 5])\<lparr>vars := vars (ex_runner [ex_check 5]) ++
      ContextUpdates (Skip ''nothing to do'' zeroStepResult)\<rparr> = ex_runner [ex_check 5]"
    by (simp add: ex_defs2)
  show ?thesis
    using skip_on_first_attempt [of "ex_registry h_skip" "ex_runner [ex_check 5]" "ex_check 5"
        h_skip 0, THEN conjunct1, THEN mp, OF hyps] same
    by (auto simp: h_skip_def ex_input_def stepInput_Attempt skip_reason_def Skip_def zeroStepResult_def)
qed

text \<open>
  Claim C2, as amended. Let the step have \<open>N\<close> retries and let its handler be registered.
  If \<open>N \<le> 2^63 - 3\<close> and every one of the attempts \<open>1 \<dots> N+1\<close> returns an error message
  and no skip directive, the handler is invoked exactly \<open>N+1\<close> times and the status is
  Failed. If \<open>N \<le> 2^63 - 2\<close>, attempts \<open>1 \<dots> K-1\<close> return an error message and no skip
  directive, and attempt \<open>K \<le> N+1\<close> returns neither, the handler is invoked exactly \<open>K\<close>
  times and the status is Succeeded. (The skip check comes before the error check, so an
  outcome with both an error message and the skip directive ends the step as Skipped.)
\<close>

theorem retries_exhausted_or_succeeded:
  assumes found: "Get registry (GetHandlerName (workflow r) step) = Some h"
    and N: "sint (GetRetries (workflow r) step) = int N"
  shows "(int N + 1 < 2^63 - 1 \<and>
          (\<forall>k. 1 \<le> k \<and> k \<le> N + 1 \<longrightarrow>
             HasErrors (outcome h (deps r) (stepInput r step) w k) \<and>
             \<not> skip_requested (outcome h (deps r) (stepInput r step) w k))
          \<longrightarrow> (\<exists>exec r' w' calls. executeStep r registry step w = Some (exec, r', w', calls) \<and>
                 calls = attempts h (deps r) (stepInput r step) w (N + 1) \<and>
                 length calls = N + 1 \<and> Status exec = ''Failed''))
       \<and> (int N < 2^63 - 1 \<and> 1 \<le> K \<and> K \<le> N + 1 \<and>
          (\<forall>k. 1 \<le> k \<and> k < K \<longrightarrow>
             HasErrors (outcome h (deps r) (stepInput r step) w k) \<and>
             \<not> skip_requested (outcome h (deps r) (stepInput r step) w k)) \<and>
          \<not> HasErrors (outcome h (deps r) (stepInput r step) w K) \<and>
          \<not> skip_requested (outcome h (deps r) (stepInput r step) w K)
          \<longrightarrow> (\<exists>exec r' w' calls. executeStep r registry step w = Some (exec, r', w', calls) \<and>
                 calls = attempts h (deps r) (stepInput r step) w K \<and>
                 length calls = K \<and> Status exec = ''Succeeded''))"
proof (intro conjI impI)
  assume a: "int N + 1 < 2^63 - 1 \<and>
          (\<forall>k. 1 \<le> k \<and> k \<le> N + 1 \<longrightarrow>
             HasErrors (outcome h (deps r) (stepInput r step) w k) \<and>
             \<not> skip_requested (outcome h (deps r) (stepInput r step) w k))"
  then have M: "sint (maxAttempts (workflow r) step) = int (N + 1)"
    using sint_maxAttempts [of "workflow r" step] N by simp
  have fails: "\<forall>k. 1 \<le> k \<and> k < Suc (N + 1) \<longrightarrow>
             HasErrors (outcome h (deps r) (stepInput r step) w k) \<and>
             \<not> skip_requested (outcome h (deps r) (stepInput r step) w k)"
    using a by (simp add: less_Suc_eq_le)
  have "retry_loop h (deps r) (maxAttempts (workflow r) step) 1 (stepInput r step)
          zeroStepResult (newStepExec step (GetHandlerName (workflow r) step)) w [] =
        Some (outcome h (deps r) (stepInput r step) w (N + 1),
              (newStepExec step (GetHandlerName (workflow r) step))\<lparr>Status := ''Failed''\<rparr>,
              world_after h (deps r) (stepInput r step) w (N + 1),
              attempts h (deps r) (stepInput r step) w (N + 1))"
    using a M by (intro retry_loop_all_fail [OF fails]) simp_all
  from executeStep_loop [OF found this]
  show "\<exists>exec r' w' calls. executeStep r registry step w = Some (exec, r', w', calls) \<and>
          calls = attempts h (deps r) (stepInput r step) w (N + 1) \<and>
          length calls = N + 1 \<and> Status exec = ''Failed''"
    by (simp add: length_attempts)
next
  assume a: "int N < 2^63 - 1 \<and> 1 \<le> K \<and> K \<le> N + 1 \<and>
          (\<forall>k. 1 \<le> k \<and> k < K \<longrightarrow>
             HasErrors (outcome h (deps r) (stepInput r step) w k) \<and>
             \<not> skip_requested (outcome h (deps r) (stepInput r step) w k)) \<and>
          \<not> HasErrors (outcome h (deps r) (stepInput r step) w K) \<and>
          \<not> skip_requested (outcome h (deps r) (stepInput r step) w K)"
  then have M: "sint (maxAttempts (workflow r) step) = int (N + 1)"
    using sint_maxAttempts [of "workflow r" step] N by simp
  have "retry_loop h (deps r) (maxAttempts (workflow r) step) 1 (stepInput r step)
          zeroStepResult (newStepExec step (GetHandlerName (workflow r) step)) w [] =
        Some (outcome h (deps r) (stepInput r step) w K,
              (newStepExec step (GetHandlerName (workflow r) step))\<lparr>Status := ''Succeeded''\<rparr>,
              world_after h (deps r) (stepInput r step) w K,
              attempts h (deps r) (stepInput r step) w K)"
    using a M by (intro retry_loop_succeeds_at) simp_all
  from executeStep_loop [OF found this]
  show "\<exists>exec r' w' calls. executeStep r registry step w = Some (exec, r', w', calls) \<and>
          calls = attempts h (deps r) (stepInput r step) w K \<and>
          length calls = K \<and> Status exec = ''Succeeded''"
    by (simp add: length_attempts)
qed

lemma ex_fail_skip_run:
  "executeStep (ex_runner [ex_check 0]) (ex_registry h_fail_skip) (ex_check 0) 0 =
     Some (ex_exec ''Skipped'' ''giving up'' (fst (h_fail_skip (ex_input 0 1) ex_deps 0)),
           ex_runner [ex_check 0], 1,
           [(ex_input 0 1, fst (h_fail_skip (ex_input 0 1) ex_deps 0))])"
  by (simp add: executeStep_def Let_def retry_loop.simps ex_defs2)

text \<open>
  The claim as stated fails: a handler that reports an error on every attempt and also
  sets the skip directive is invoked once and the step ends Skipped, not Failed.
\<close>

theorem error_with_skip_counterexample:
  "(\<forall>input d w. HasErrors (fst (h_fail_skip input d w))) \<and>
   sint (GetRetries (workflow (ex_runner [ex_check 0])) (ex_check 0)) = 0 \<and>
   executeStep (ex_runner [ex_check 0]) (ex_registry h_fail_skip) (ex_check 0) 0 =
     Some (ex_exec ''Skipped'' ''giving up'' (fst (h_fail_skip (ex_input 0 1) ex_deps 0)),
           ex_runner [ex_check 0], 1,
           [(ex_input 0 1, fst (h_fail_skip (ex_input 0 1) ex_deps 0))]) \<and>
   Status (ex_exec ''Skipped'' ''giving up'' (fst (h_fail_skip (ex_input 0 1) ex_deps 0)))
     \<noteq> ''Failed''"
  using ex_fail_skip_run by (simp add: ex_defs2)

text \<open>
  The amended claim at a step with two retries: a handler that always fails is invoked
  three times, one that succeeds on its second attempt twice.
\<close>

theorem retries_exhausted_or_succeeded_witness:
  "(\<exists>exec r' w' calls.
      executeStep (ex_runner [ex_check 2]) (ex_registry h_fail) (ex_check 2) 0
        = Some (exec, r', w', calls) \<and>
      length calls = 3 \<and> Status exec = ''Failed'') \<and>
   (\<exists>exec r' w' calls.
      executeStep (ex_runner [ex_check 2]) (ex_registry h_second) (ex_check 2) 0
        = Some (exec, r', w', calls) \<and>
      length calls = 2 \<and> Status exec = ''Succeeded'')"
proof -
  have k1: "(1 \<le> k \<and> k < 2) = (k = 1)" for k :: nat by auto
  have N: "sint (GetRetries (workflow (ex_runner [ex_check 2])) (ex_check 2)) = int 2"
    by (simp add: ex_defs2)
  have f1: "Get (ex_registry h_fail) (GetHandlerName (workflow (ex_runner [ex_check 2])) (ex_check 2))
      = Some h_fail"
    by (simp add: ex_defs2)
  have f2: "Get (ex_registry h_second) (GetHandlerName (workflow (ex_runner [ex_check 2])) (ex_check 2))
      = Some h_second"
    by (simp add: ex_defs2)
  have a: "\<forall>k. HasErrors (outcome h_fail (deps (ex_runner [ex_check 2]))
                (stepInput (ex_runner [ex_check 2]) (ex_check 2)) 0 k) \<and>
             \<not> skip_requested (outcome h_fail (deps (ex_runner [ex_check 2]))
                (stepInput (ex_runner [ex_check 2]) (ex_check 2)) 0 k)"
    by (simp add: outcome_def ex_defs)
  have b: "HasErrors (outcome h_second (deps (ex_runner [ex_check 2]))
                (stepInput (ex_runner [ex_check 2]) (ex_check 2)) 0 1) \<and>
           \<not> skip_requested (outcome h_second (deps (ex_runner [ex_check 2]))
                (stepInput (ex_runner [ex_check 2]) (ex_check 2)) 0 1) \<and>
           \<not> HasErrors (outcome h_second (deps (ex_runner [ex_check 2]))
                (stepInput (ex_runner [ex_check 2]) (ex_check 2)) 0 2) \<and>
           \<not> skip_requested (outcome h_second (deps (ex_runner [ex_check 2]))
                (stepInput (ex_runner [ex_check 2]) (ex_check 2)) 0 2)"
    by (simp add: outcome_def ex_defs)
  have c1: "int 2 + 1 < 2^63 - 1 \<and>
          (\<forall>k. 1 \<le> k \<and> k \<le> 2 + 1 \<longrightarrow>
             HasErrors (outcome h_fail (deps (ex_runner [ex_check 2]))
                (stepInput (ex_runner [ex_check 2]) (ex_check 2)) 0 k) \<and>
             \<not> skip_requested (outcome h_fail (deps (ex_runner [ex_check 2]))
                (stepInput (ex_runner [ex_check 2]) (ex_check 2)) 0 k))"
    using a by simp
  have c2: "int 2 < 2^63 - 1 \<and> 1 \<le> (2::nat) \<and> (2::nat) \<le> 2 + 1 \<and>
          (\<forall>k. 1 \<le> k \<and> k < 2 \<longrightarrow>
             HasErrors (outcome h_second (deps (ex_runner [ex_check 2]))
                (stepInput (ex_runner [ex_check 2]) (ex_check 2)) 0 k) \<and>
             \<not> skip_requested (outcome h_second (deps (ex_runner [ex_check 2]))
                (stepInput (ex_runner [ex_check 2]) (ex_check 2)) 0 k)) \<and>
          \<not> HasErrors (outcome h_second (deps (ex_runner [ex_check 2]))
                (stepInput (ex_runner [ex_check 2]) (ex_check 2)) 0 2) \<and>
          \<not> skip_requested (outcome h_second (deps (ex_runner [ex_check 2]))
                (stepInput (ex_runner [ex_check 2]) (ex_check 2)) 0 2)"
  proof -
    have "\<forall>k. 1 \<le> k \<and> k < 2 \<longrightarrow>
             HasErrors (outcome h_second (deps (ex_runner [ex_check 2]))
                (stepInput (ex_runner [ex_check 2]) (ex_check 2)) 0 k) \<and>
             \<not> skip_requested (outcome h_second (deps (ex_runner [ex_check 2]))
                (stepInput (ex_runner [ex_check 2]) (ex_check 2)) 0 k)"
    proof (intro allI impI)
      fix k :: nat
      assume "1 \<le> k \<and> k < 2"
      then have "k = 1" by simp
      then show "HasErrors (outcome h_second (deps (ex_runner [ex_check 2]))
                (stepInput (ex_runner [ex_check 2]) (ex_check 2)) 0 k) \<and>
             \<not> skip_requested (outcome h_second (deps (ex_runner [ex_check 2]))
                (stepInput (ex_runner [ex_check 2]) (ex_check 2)) 0 k)"
        using b by simp
    qed
    then show ?thesis using b by simp
  qed
  show ?thesis
    using retries_exhausted_or_succeeded [OF f1 N, of 0 2, THEN conjunct1, THEN mp, OF c1]
      retries_exhausted_or_succeeded [OF f2 N, of 0 2, THEN conjunct2, THEN mp, OF c2]
    by auto
qed

lemma executeStep_last_outcome:
  assumes found: "Get registry (GetHandlerName (workflow r) step) = Some h"
    and run: "executeStep r registry step w = Some (exec, r', w', calls)"
    and attempted: "calls \<noteq> []"
  shows "Status exec \<in> {''Succeeded'', ''Failed'', ''Skipped''} \<and>
         StepExec.Messages exec = StepResult.Messages (snd (last calls)) \<and>
         StepExec.Output exec = StepResult.Output (snd (last calls)) \<and>
         r' = r\<lparr>vars := vars r ++ ContextUpdates (snd (last calls))\<rparr> \<and>
         (\<forall>k. vars r' k = (case ContextUpdates (snd (last calls)) k of
                             None \<Rightarrow> vars r k | Some v \<Rightarrow> Some v)) \<and>
         (\<forall>c \<in> set calls. Vars (fst c) = vars r)"
proof -
  from found run obtain res exec0 where
    loop: "retry_loop h (deps r) (maxAttempts (workflow r) step) 1 (stepInput r step)
       zeroStepResult (newStepExec step (GetHandlerName (workflow r) step)) w [] =
       Some (res, exec0, w', calls)"
    and exec: "exec = exec0\<lparr>StepExec.Messages := StepResult.Messages res,
                      StepExec.Output := StepResult.Output res\<rparr>"
    and r': "r' = r\<lparr>vars := vars r ++ ContextUpdates res\<rparr>"
    by (rule executeStep_result)
  from retry_loop_result_aux [OF loop] attempted
  have inputs: "\<forall>c \<in> set calls. (fst c)\<lparr>Attempt := 0\<rparr> = (stepInput r step)\<lparr>Attempt := 0\<rparr>"
    and res: "res = snd (last calls)"
    and st: "Status exec0 \<in> {''Succeeded'', ''Failed'', ''Skipped''}"
    by auto
  have vars_in: "Vars (fst c) = vars r" if "c \<in> set calls" for c
  proof -
    have "Vars ((fst c)\<lparr>Attempt := 0\<rparr>) = Vars ((stepInput r step)\<lparr>Attempt := 0\<rparr>)"
      using inputs that by simp
    then show ?thesis by (simp add: stepInput_def)
  qed
  have merge: "vars r' k = (case ContextUpdates (snd (last calls)) k of
                             None \<Rightarrow> vars r k | Some v \<Rightarrow> Some v)" for k
    by (simp add: r' res map_add_def)
  show ?thesis using exec r' res st vars_in merge by simp
qed

lemma executeStep_returns:
  assumes found: "Get registry (GetHandlerName (workflow r) step) = Some h"
    and budget: "sint (GetRetries (workflow r) step) < 2^63 - 2"
  shows "\<exists>exec r' w' calls. executeStep r registry step w = Some (exec, r', w', calls) \<and>
           calls \<noteq> [] \<and> calls = attempts h (deps r) (stepInput r step) w (length calls)"
proof -
  from executeStep_total [OF found budget, of w]
  obtain n exec where n: "1 \<le> n"
    and run: "executeStep r registry step w =
             Some (exec,
                   r\<lparr>vars := vars r ++ ContextUpdates (outcome h (deps r) (stepInput r step) w n)\<rparr>,
                   world_after h (deps r) (stepInput r step) w n,
                   attempts h (deps r) (stepInput r step) w n)"
    by blast
  show ?thesis
    unfolding run using attempts_nonempty [OF n] by (simp add: length_attempts)
qed

text \<open>
  Claim C4. For a step whose handler is registered and whose retry count is below
  \<open>2^63 - 2\<close>, \<open>executeStep\<close> returns after at least one attempt, and whenever it returns
  after at least one attempt (with any retry count): the status is one of Succeeded,
  Failed and Skipped, the record holds the messages and the output of the last attempt's
  outcome, and the runner's variables are the variables before the step overwritten key
  by key with the context updates of that last outcome. Nothing of an earlier attempt's
  updates is in them, and every attempt was given the variables as they were before the
  step.
\<close>

theorem last_outcome_recorded_and_merged:
  assumes found: "Get registry (GetHandlerName (workflow r) step) = Some h"
  shows "(sint (GetRetries (workflow r) step) < 2^63 - 2 \<longrightarrow>
           (\<exists>exec r' w' calls.
              executeStep r registry step w = Some (exec, r', w', calls) \<and> calls \<noteq> [] \<and>
              calls = attempts h (deps r) (stepInput r step) w (length calls) \<and>
              Status exec \<in> {''Succeeded'', ''Failed'', ''Skipped''} \<and>
              StepExec.Messages exec = StepResult.Messages (snd (last calls)) \<and>
              StepExec.Output exec = StepResult.Output (snd (last calls)) \<and>
              r' = r\<lparr>vars := vars r ++ ContextUpdates (snd (last calls))\<rparr> \<and>
              (\<forall>k. vars r' k = (case ContextUpdates (snd (last calls)) k of
                                  None \<Rightarrow> vars r k | Some v \<Rightarrow> Some v)) \<and>
              (\<forall>c \<in> set calls. Vars (fst c) = vars r))) \<and>
         (\<forall>exec r' w' calls.
            executeStep r registry step w = Some (exec, r', w', calls) \<and> calls \<noteq> [] \<longrightarrow>
              Status exec \<in> {''Succeeded'', ''Failed'', ''Skipped''} \<and>
              StepExec.Messages exec = StepResult.Messages (snd (last calls)) \<and>
              StepExec.Output exec = StepResult.Output (snd (last calls)) \<and>
              r' = r\<lparr>vars := vars r ++ ContextUpdates (snd (last calls))\<rparr> \<and>
              (\<forall>k. vars r' k = (case ContextUpdates (snd (last calls)) k of
                                  None \<Rightarrow> vars r k | Some v \<Rightarrow> Some v)) \<and>
              (\<forall>c \<in> set calls. Vars (fst c) = vars r))"
proof (rule conjI, rule impI)
  assume budget: "sint (GetRetries (workflow r) step) < 2^63 - 2"
  from executeStep_returns [OF found budget, of w]
  obtain exec r' w' calls where
    run: "executeStep r registry step w = Some (exec, r', w', calls)"
    and ne: "calls \<noteq> []"
    and log: "calls = attempts h (deps r) (stepInput r step) w (length calls)"
    by blast
  from executeStep_last_outcome [OF found run ne] run ne log
  show "\<exists>exec r' w' calls.
              executeStep r registry step w = Some (exec, r', w', calls) \<and> calls \<noteq> [] \<and>
              calls = attempts h (deps r) (stepInput r step) w (length calls) \<and>
              Status exec \<in> {''Succeeded'', ''Failed'', ''Skipped''} \<and>
              StepExec.Messages exec = StepResult.Messages (snd (last calls)) \<and>
              StepExec.Output exec = StepResult.Output (snd (last calls)) \<and>
              r' = r\<lparr>vars := vars r ++ ContextUpdates (snd (last calls))\<rparr> \<and>
              (\<forall>k. vars r' k = (case ContextUpdates (snd (last calls)) k of
                                  None \<Rightarrow> vars r k | Some v \<Rightarrow> Some v)) \<and>
              (\<forall>c \<in> set calls. Vars (fst c) = vars r)"
    by blast
next
  show "\<forall>exec r' w' calls.
            executeStep r registry step w = Some (exec, r', w', calls) \<and> calls \<noteq> [] \<longrightarrow>
              Status exec \<in> {''Succeeded'', ''Failed'', ''Skipped''} \<and>
              StepExec.Messages exec = StepResult.Messages (snd (last calls)) \<and>
              StepExec.Output exec = StepResult.Output (snd (last calls)) \<and>
              r' = r\<lparr>vars := vars r ++ ContextUpdates (snd (last calls))\<rparr> \<and>
              (\<forall>k. vars r' k = (case ContextUpdates (snd (last calls)) k of
                                  None \<Rightarrow> vars r k | Some v \<Rightarrow> Some v)) \<and>
              (\<forall>c \<in> set calls. Vars (fst c) = vars r)"
  proof (intro allI impI)
  fix exec r' w' calls
  assume "executeStep r registry step w = Some (exec, r', w', calls) \<and> calls \<noteq> []"
  then have run: "executeStep r registry step w = Some (exec, r', w', calls)"
    and ne: "calls \<noteq> []" by simp_all
  from executeStep_last_outcome [OF found run ne]
  show "Status exec \<in> {''Succeeded'', ''Failed'', ''Skipped''} \<and>
              StepExec.Messages exec = StepResult.Messages (snd (last calls)) \<and>
              StepExec.Output exec = StepResult.Output (snd (last calls)) \<and>
              r' = r\<lparr>vars := vars r ++ ContextUpdates (snd (last calls))\<rparr> \<and>
              (\<forall>k. vars r' k = (case ContextUpdates (snd (last calls)) k of
                                  None \<Rightarrow> vars r k | Some v \<Rightarrow> Some v)) \<and>
              (\<forall>c \<in> set calls. Vars (fst c) = vars r)" .
  qed
qed

lemma ex_keys_run:
  "executeStep (ex_runner [ex_check 2]) (ex_registry h_keys) (ex_check 2) 0 =
     Some (ex_exec ''Succeeded'' '''' (fst (h_keys (ex_input 2 2) ex_deps 1)),
           (ex_runner [ex_check 2])\<lparr>vars := [''seen'' \<mapsto> AnyInt 1]\<rparr>, 2,
           [(ex_input 2 1, fst (h_keys (ex_input 2 1) ex_deps 0)),
            (ex_input 2 2, fst (h_keys (ex_input 2 2) ex_deps 1))])"
  by (simp add: executeStep_def Let_def retry_loop.simps ex_defs2 h_keys_def)

text \<open>
  The claim at a step with two retries whose handler fails on the first attempt, setting
  \<open>tried\<close>, and succeeds on the second, setting \<open>seen\<close>: the second outcome is recorded,
  its update of \<open>seen\<close> replaces the old value, which both attempts still saw, and the
  first attempt's \<open>tried\<close> is not in the variables.
\<close>

theorem last_outcome_recorded_and_merged_witness:
  "\<exists>exec r' w' calls.
     executeStep (ex_runner [ex_check 2]) (ex_registry h_keys) (ex_check 2) 0
       = Some (exec, r', w', calls) \<and>
     length calls = 2 \<and>
     ContextUpdates (snd (calls ! 0)) ''tried'' = Some (AnyInt 1) \<and>
     Status exec = ''Succeeded'' \<and>
     StepExec.Messages exec = [\<lparr>Severity = ''INFO'', Text = ''done'', System = ''ex''\<rparr>] \<and>
     StepExec.Messages exec = StepResult.Messages (snd (calls ! 1)) \<and>
     vars (ex_runner [ex_check 2]) ''seen'' = Some (AnyInt 0) \<and>
     Vars (fst (calls ! 0)) ''seen'' = Some (AnyInt 0) \<and>
     Vars (fst (calls ! 1)) ''seen'' = Some (AnyInt 0) \<and>
     vars r' ''seen'' = Some (AnyInt 1) \<and>
     vars r' ''tried'' = None"
proof -
  have found: "Get (ex_registry h_keys) (GetHandlerName (workflow (ex_runner [ex_check 2])) (ex_check 2))
      = Some h_keys"
    by (simp add: ex_defs2)
  have budget: "sint (GetRetries (workflow (ex_runner [ex_check 2])) (ex_check 2)) < 2^63 - 2"
    by (simp add: ex_defs2)
  from last_outcome_recorded_and_merged [OF found, of 0, THEN conjunct1, THEN mp, OF budget]
  obtain exec r' w' calls where
    run: "executeStep (ex_runner [ex_check 2]) (ex_registry h_keys) (ex_check 2) 0
       = Some (exec, r', w', calls)"
    and props: "Status exec \<in> {''Succeeded'', ''Failed'', ''Skipped''}"
      "StepExec.Messages exec = StepResult.Messages (snd (last calls))"
      "r' = (ex_runner [ex_check 2])\<lparr>vars := vars (ex_runner [ex_check 2]) ++
              ContextUpdates (snd (last calls))\<rparr>"
    by blast
  from run have vals:
    "exec = ex_exec ''Succeeded'' '''' (fst (h_keys (ex_input 2 2) ex_deps 1))"
    "calls = [(ex_input 2 1, fst (h_keys (ex_input 2 1) ex_deps 0)),
              (ex_input 2 2, fst (h_keys (ex_input 2 2) ex_deps 1))]"
    unfolding ex_keys_run by simp_all
  show ?thesis
    apply (rule exI [of _ exec])
    apply (rule exI [of _ r'])
    apply (rule exI [of _ w'])
    apply (rule exI [of _ calls])
    using run props unfolding vals
    by (simp add: ex_defs2 h_keys_def)
qed

text \<open>
  Claim C10 fails on the code. With \<open>retries: 9223372036854775807\<close> the attempt budget
  \<open>GetRetries(step) + 1\<close> wraps to \<open>-2^63\<close>, the loop body never runs, no handler is
  invoked, and the record is returned with its status still the empty string.
\<close>

theorem status_unset_when_budget_wraps:
  "sint (GetRetries (workflow (ex_runner [ex_check 9223372036854775807]))
           (ex_check 9223372036854775807)) = 9223372036854775807 \<and>
   sint (maxAttempts (workflow (ex_runner [ex_check 9223372036854775807]))
           (ex_check 9223372036854775807)) = - 9223372036854775808 \<and>
   executeStep (ex_runner [ex_check 9223372036854775807]) (ex_registry h_ok)
      (ex_check 9223372036854775807) 0 =
     Some (ex_exec '''' '''' zeroStepResult, ex_runner [ex_check 9223372036854775807], 0, []) \<and>
   Status (ex_exec '''' '''' zeroStepResult) = ''''"
  by (simp add: executeStep_def Let_def retry_loop.simps ex_defs2)

text \<open>Where the budget does not wrap, every path out of \<open>executeStep\<close> sets the status.\<close>

lemma executeStep_status_set:
  assumes run: "executeStep r registry step w = Some (exec, r', w', calls)"
    and M: "sint (GetRetries (workflow r) step) < 2^63 - 1"
  shows "Status exec \<in> {''Succeeded'', ''Failed'', ''Skipped''}"
proof (cases "Get registry (GetHandlerName (workflow r) step)")
  case None
  from executeStep_not_found [OF None, of w] run show ?thesis
    by (auto simp: newStepExec_def)
next
  case (Some h)
  from Some run obtain res exec0 where
    loop: "retry_loop h (deps r) (maxAttempts (workflow r) step) 1 (stepInput r step)
       zeroStepResult (newStepExec step (GetHandlerName (workflow r) step)) w [] =
       Some (res, exec0, w', calls)"
    and exec: "exec = exec0\<lparr>StepExec.Messages := StepResult.Messages res,
                      StepExec.Output := StepResult.Output res\<rparr>"
    by (rule executeStep_result)
  have "1 <=s maxAttempts (workflow r) step"
    using sint_maxAttempts [OF M] GetRetries_nonneg [of "workflow r" step]
    by (simp add: word_sle_eq)
  with retry_loop_result_aux [OF loop] have "Status exec0 \<in> {''Succeeded'', ''Failed'', ''Skipped''}"
    by auto
  then show ?thesis using exec by simp
qed

lemma retry_loop_count_bound:
  "retry_loop h d M a inp res exec w calls = Some y \<Longrightarrow> sint M < 2^63 - 1 \<Longrightarrow>
   int (length (snd (snd (snd y)))) \<le> int (length calls) + max 0 (sint M - sint a + 1)"
proof (induction h d M a inp res exec w calls y
       rule: retry_loop.raw_induct [rotated 1, consumes 1, case_names step])
  case (step loop h d M a inp res exec w calls y)
  show ?case
  proof (cases "a <=s M")
    case False
    with step(2) have "y = (res, exec, w, calls)" by simp
    then show ?thesis by simp
  next
    case le: True
    obtain res' w' where hw: "h (inp\<lparr>Attempt := a\<rparr>) d w = (res', w')" by force
    let ?c = "(inp\<lparr>Attempt := a\<rparr>, res')"
    have pos: "0 \<le> sint M - sint a" using le by (simp add: word_sle_eq)
    show ?thesis
    proof (cases "skip_requested res' \<or> \<not> HasErrors res'")
      case True
      with step(2) le hw have "snd (snd (snd y)) = calls @ [?c]"
        by (auto split: if_splits)
      then show ?thesis using pos by simp
    next
      case False
      let ?exec = "if a = M then exec\<lparr>Status := ''Failed''\<rparr> else exec"
      from step(2) le hw False
      have rec: "loop h d M (a + 1) (inp\<lparr>Attempt := a\<rparr>) res' ?exec w' (calls @ [?c]) = Some y"
        by simp
      have sa: "sint (a + 1) = sint a + 1"
        using le step.prems by (intro sint_succ) (simp add: word_sle_eq)
      from step(1) [OF rec step.prems]
      have "int (length (snd (snd (snd y)))) \<le> int (length (calls @ [?c])) + max 0 (sint M - sint (a + 1) + 1)" .
      then show ?thesis using pos sa by simp
    qed
  qed
qed

lemma executeStep_attempts:
  assumes found: "Get registry (GetHandlerName (workflow r) step) = Some h"
    and budget: "sint (GetRetries (workflow r) step) < 2^63 - 2"
  shows "\<exists>exec r' w' calls.
           executeStep r registry step w = Some (exec, r', w', calls) \<and>
           calls = attempts h (deps r) (stepInput r step) w (length calls) \<and>
           1 \<le> length calls \<and>
           int (length calls) \<le> sint (maxAttempts (workflow r) step) \<and>
           (\<forall>i. i < length calls \<longrightarrow>
              fst (calls ! i) = (stepInput r step)\<lparr>Attempt := of_nat (i + 1)\<rparr> \<and>
              sint (Attempt (fst (calls ! i))) = int i + 1 \<and>
              TotalRetries (fst (calls ! i)) = GetRetries (workflow r) step) \<and>
           (\<forall>i. Suc i < length calls \<longrightarrow>
              HasErrors (snd (calls ! i)) \<and> \<not> skip_requested (snd (calls ! i))) \<and>
           (int (length calls) < sint (maxAttempts (workflow r) step) \<longrightarrow>
              skip_requested (snd (last calls)) \<or> \<not> HasErrors (snd (last calls)))"
proof -
  have M: "sint (maxAttempts (workflow r) step) = sint (GetRetries (workflow r) step) + 1"
    using budget by (intro sint_maxAttempts) simp
  from executeStep_total [OF found budget, of w]
  obtain n exec where n: "1 \<le> n" "int n \<le> sint (GetRetries (workflow r) step) + 1"
    and run: "executeStep r registry step w =
             Some (exec,
                   r\<lparr>vars := vars r ++ ContextUpdates (outcome h (deps r) (stepInput r step) w n)\<rparr>,
                   world_after h (deps r) (stepInput r step) w n,
                   attempts h (deps r) (stepInput r step) w n)"
    and below: "\<forall>k. 1 \<le> k \<and> k < n \<longrightarrow>
              HasErrors (outcome h (deps r) (stepInput r step) w k) \<and>
              \<not> skip_requested (outcome h (deps r) (stepInput r step) w k)"
    and last: "HasErrors (outcome h (deps r) (stepInput r step) w n) \<and>
            \<not> skip_requested (outcome h (deps r) (stepInput r step) w n)
              \<longrightarrow> int n = sint (GetRetries (workflow r) step) + 1"
    by blast
  let ?calls = "attempts h (deps r) (stepInput r step) w n"
  have len: "length ?calls = n" by (rule length_attempts)
  have inputs: "fst (?calls ! i) = (stepInput r step)\<lparr>Attempt := of_nat (i + 1)\<rparr> \<and>
              sint (Attempt (fst (?calls ! i))) = int i + 1 \<and>
              TotalRetries (fst (?calls ! i)) = GetRetries (workflow r) step" if i: "i < n" for i
  proof -
    have "int (Suc i) \<le> sint (GetRetries (workflow r) step) + 1" using i n(2) by simp
    then have "int (Suc i) < 2^63" using budget by simp
    then have "Suc i < 2^63" by (metis of_nat_less_iff of_nat_numeral of_nat_power)
    then have "sint (of_nat (Suc i) :: 64 word) = int (Suc i)" by (rule sint_of_nat_small)
    then show ?thesis using i by (simp add: attempts_nth stepInput_def)
  qed
  have earlier: "HasErrors (snd (?calls ! i)) \<and> \<not> skip_requested (snd (?calls ! i))"
    if i: "Suc i < n" for i
    using below i by (simp add: attempts_nth)
  have final: "skip_requested (snd (last ?calls)) \<or> \<not> HasErrors (snd (last ?calls))"
    if "int n < sint (maxAttempts (workflow r) step)"
    using last that M n(1) by (auto simp: attempts_last)
  have n2: "int n \<le> sint (maxAttempts (workflow r) step)" using n(2) M by simp
  have c1: "\<forall>i. i < n \<longrightarrow>
              fst (?calls ! i) = (stepInput r step)\<lparr>Attempt := of_nat (i + 1)\<rparr> \<and>
              sint (Attempt (fst (?calls ! i))) = int i + 1 \<and>
              TotalRetries (fst (?calls ! i)) = GetRetries (workflow r) step"
    using inputs by blast
  have c2: "\<forall>i. Suc i < n \<longrightarrow>
              HasErrors (snd (?calls ! i)) \<and> \<not> skip_requested (snd (?calls ! i))"
    using earlier by blast
  have c3: "int n < sint (maxAttempts (workflow r) step) \<longrightarrow>
              skip_requested (snd (last ?calls)) \<or> \<not> HasErrors (snd (last ?calls))"
    using final by blast
  show ?thesis
    apply (rule exI [of _ exec])
    apply (rule exI [of _ "r\<lparr>vars := vars r ++ ContextUpdates (outcome h (deps r) (stepInput r step) w n)\<rparr>"])
    apply (rule exI [of _ "world_after h (deps r) (stepInput r step) w n"])
    apply (rule exI [of _ ?calls])
    unfolding len
    using run n(1) n2 c1 c2 c3 by blast
qed

lemma executeStep_inputs:
  assumes found: "Get registry (GetHandlerName (workflow r) step) = Some h"
    and run: "executeStep r registry step w = Some (exec, r', w', calls)"
  shows "(\<forall>i. i < length calls \<longrightarrow>
         Attempt (fst (calls ! i)) = of_nat (i + 1) \<and>
         TotalRetries (fst (calls ! i)) = GetRetries (workflow r) step) \<and>
      (sint (GetRetries (workflow r) step) < 2^63 - 1 \<longrightarrow> calls \<noteq> []) \<and>
      (sint (GetRetries (workflow r) step) < 2^63 - 2 \<longrightarrow>
         int (length calls) \<le> sint (maxAttempts (workflow r) step))"
proof (intro conjI impI)
  from found run obtain res exec0 where
    loop: "retry_loop h (deps r) (maxAttempts (workflow r) step) 1 (stepInput r step)
       zeroStepResult (newStepExec step (GetHandlerName (workflow r) step)) w [] =
       Some (res, exec0, w', calls)"
    by (rule executeStep_result)
  from retry_loop_result_aux [OF loop]
  have inputs: "\<forall>c \<in> set calls. (fst c)\<lparr>Attempt := 0\<rparr> = (stepInput r step)\<lparr>Attempt := 0\<rparr>"
    and nums: "map (Attempt \<circ> fst) calls = map (\<lambda>j. 1 + of_nat j) [0..<length calls]"
    and none: "calls = [] \<longrightarrow> \<not> 1 <=s maxAttempts (workflow r) step"
    by auto
  show "\<forall>i. i < length calls \<longrightarrow>
         Attempt (fst (calls ! i)) = of_nat (i + 1) \<and>
         TotalRetries (fst (calls ! i)) = GetRetries (workflow r) step"
  proof (intro allI impI)
    fix i assume i: "i < length calls"
    have "(map (Attempt \<circ> fst) calls) ! i = (map (\<lambda>j. 1 + of_nat j) [0..<length calls]) ! i"
      using nums by simp
    then have 1: "Attempt (fst (calls ! i)) = of_nat (i + 1)" using i by simp
    have "TotalRetries ((fst (calls ! i))\<lparr>Attempt := 0\<rparr>)
            = TotalRetries ((stepInput r step)\<lparr>Attempt := 0\<rparr>)"
      using inputs i by simp
    then have 2: "TotalRetries (fst (calls ! i)) = GetRetries (workflow r) step"
      by (simp add: stepInput_def)
    from 1 2 show "Attempt (fst (calls ! i)) = of_nat (i + 1) \<and>
         TotalRetries (fst (calls ! i)) = GetRetries (workflow r) step" ..
  qed
  {
    assume M: "sint (GetRetries (workflow r) step) < 2^63 - 1"
    have "1 <=s maxAttempts (workflow r) step"
      using sint_maxAttempts [OF M] GetRetries_nonneg [of "workflow r" step]
      by (simp add: word_sle_eq)
    then show "calls \<noteq> []" using none by blast
  }
  {
    assume M: "sint (GetRetries (workflow r) step) < 2^63 - 2"
    then have M1: "sint (maxAttempts (workflow r) step) = sint (GetRetries (workflow r) step) + 1"
      by (intro sint_maxAttempts) simp
    then have "sint (maxAttempts (workflow r) step) < 2^63 - 1" using M by simp
    from retry_loop_count_bound [OF loop this]
    show "int (length calls) \<le> sint (maxAttempts (workflow r) step)"
      using M1 GetRetries_nonneg [of "workflow r" step] by simp
  }
qed

text \<open>
  Claim C8, as amended. \<open>retries(step)\<close> is the step's own count when positive, else the
  workflow default when positive, else zero, and the attempt budget is \<open>retries(step) + 1\<close>
  in 64-bit arithmetic; below \<open>2^63 - 1\<close> retries that is the integer sum and at least
  one. For a step whose handler is registered and whose retry count is below \<open>2^63 - 2\<close>,
  \<open>executeStep\<close> returns after \<open>n\<close> invocations with \<open>1 \<le> n \<le> budget\<close>; the \<open>i\<close>-th
  invocation receives the step input with \<open>Attempt = i\<close> (counting from 1) and
  \<open>TotalRetries = retries(step)\<close>, the retry count and not the total number of allowed
  attempts; every invocation but the last returned an error message and no skip
  directive; and the budget is used up unless the last outcome has the skip directive or
  no error message. The numbering of the inputs holds of every run that returns, for any
  retry count.
\<close>

theorem attempt_budget_and_step_input:
  "sint (GetRetries (workflow r) step) =
     (if 0 < sint (Retries step) then sint (Retries step)
      else if 0 < sint (DefaultRetries (workflow r)) then sint (DefaultRetries (workflow r))
      else 0) \<and>
   maxAttempts (workflow r) step = GetRetries (workflow r) step + 1 \<and>
   (sint (GetRetries (workflow r) step) < 2^63 - 1 \<longrightarrow>
      sint (maxAttempts (workflow r) step) = sint (GetRetries (workflow r) step) + 1 \<and>
      1 \<le> sint (maxAttempts (workflow r) step)) \<and>
   (Get registry (GetHandlerName (workflow r) step) = Some h \<and>
    sint (GetRetries (workflow r) step) < 2^63 - 2 \<longrightarrow>
      (\<exists>exec r' w' calls.
         executeStep r registry step w = Some (exec, r', w', calls) \<and>
         calls = attempts h (deps r) (stepInput r step) w (length calls) \<and>
         1 \<le> length calls \<and>
         int (length calls) \<le> sint (maxAttempts (workflow r) step) \<and>
         (\<forall>i. i < length calls \<longrightarrow>
            fst (calls ! i) = (stepInput r step)\<lparr>Attempt := of_nat (i + 1)\<rparr> \<and>
            sint (Attempt (fst (calls ! i))) = int i + 1 \<and>
            TotalRetries (fst (calls ! i)) = GetRetries (workflow r) step) \<and>
         (\<forall>i. Suc i < length calls \<longrightarrow>
            HasErrors (snd (calls ! i)) \<and> \<not> skip_requested (snd (calls ! i))) \<and>
         (int (length calls) < sint (maxAttempts (workflow r) step) \<longrightarrow>
            skip_requested (snd (last calls)) \<or> \<not> HasErrors (snd (last calls))))) \<and>
   (\<forall>exec r' w' calls.
      Get registry (GetHandlerName (workflow r) step) = Some h \<and>
      executeStep r registry step w = Some (exec, r', w', calls) \<longrightarrow>
        (\<forall>i. i < length calls \<longrightarrow>
           Attempt (fst (calls ! i)) = of_nat (i + 1) \<and>
           TotalRetries (fst (calls ! i)) = GetRetries (workflow r) step) \<and>
        (sint (GetRetries (workflow r) step) < 2^63 - 1 \<longrightarrow> calls \<noteq> []) \<and>
        (sint (GetRetries (workflow r) step) < 2^63 - 2 \<longrightarrow>
           int (length calls) \<le> sint (maxAttempts (workflow r) step)))"
proof -
  have 1: "sint (GetRetries (workflow r) step) =
     (if 0 < sint (Retries step) then sint (Retries step)
      else if 0 < sint (DefaultRetries (workflow r)) then sint (DefaultRetries (workflow r))
      else 0)"
    by (rule sint_GetRetries)
  have 2: "maxAttempts (workflow r) step = GetRetries (workflow r) step + 1"
    by (simp add: maxAttempts_def)
  have 3: "sint (GetRetries (workflow r) step) < 2^63 - 1 \<longrightarrow>
      sint (maxAttempts (workflow r) step) = sint (GetRetries (workflow r) step) + 1 \<and>
      1 \<le> sint (maxAttempts (workflow r) step)"
    using sint_maxAttempts [of "workflow r" step] GetRetries_nonneg [of "workflow r" step]
    by simp
  have 4: "Get registry (GetHandlerName (workflow r) step) = Some h \<and>
    sint (GetRetries (workflow r) step) < 2^63 - 2 \<longrightarrow>
      (\<exists>exec r' w' calls.
         executeStep r registry step w = Some (exec, r', w', calls) \<and>
         calls = attempts h (deps r) (stepInput r step) w (length calls) \<and>
         1 \<le> length calls \<and>
         int (length calls) \<le> sint (maxAttempts (workflow r) step) \<and>
         (\<forall>i. i < length calls \<longrightarrow>
            fst (calls ! i) = (stepInput r step)\<lparr>Attempt := of_nat (i + 1)\<rparr> \<and>
            sint (Attempt (fst (calls ! i))) = int i + 1 \<and>
            TotalRetries (fst (calls ! i)) = GetRetries (workflow r) step) \<and>
         (\<forall>i. Suc i < length calls \<longrightarrow>
            HasErrors (snd (calls ! i)) \<and> \<not> skip_requested (snd (calls ! i))) \<and>
         (int (length calls) < sint (maxAttempts (workflow r) step) \<longrightarrow>
            skip_requested (snd (last calls)) \<or> \<not> HasErrors (snd (last calls))))"
    using executeStep_attempts [of registry r step h w] by blast
  have 5: "\<forall>exec r' w' calls.
      Get registry (GetHandlerName (workflow r) step) = Some h \<and>
      executeStep r registry step w = Some (exec, r', w', calls) \<longrightarrow>
        (\<forall>i. i < length calls \<longrightarrow>
           Attempt (fst (calls ! i)) = of_nat (i + 1) \<and>
           TotalRetries (fst (calls ! i)) = GetRetries (workflow r) step) \<and>
        (sint (GetRetries (workflow r) step) < 2^63 - 1 \<longrightarrow> calls \<noteq> []) \<and>
        (sint (GetRetries (workflow r) step) < 2^63 - 2 \<longrightarrow>
           int (length calls) \<le> sint (maxAttempts (workflow r) step))"
    using executeStep_inputs [of registry r step h w] by blast
  from 1 2 3 4 5 show ?thesis by (intro conjI)
qed

lemma ex_ok_run:
  "executeStep (ex_runner [ex_check 0]) (ex_registry h_ok) (ex_check 0) 0 =
     Some (ex_exec ''Succeeded'' '''' (fst (h_ok (ex_input 0 1) ex_deps 0)),
           (ex_runner [ex_check 0])\<lparr>vars := [''seen'' \<mapsto> AnyInt 1]\<rparr>, 1,
           [(ex_input 0 1, fst (h_ok (ex_input 0 1) ex_deps 0))])"
  by (simp add: executeStep_def Let_def retry_loop.simps ex_defs2)

text \<open>
  The claim as stated fails: with no retries the step is allowed one attempt, and the
  input of that attempt carries \<open>TotalRetries = 0\<close>.
\<close>

theorem total_retries_counterexample:
  "executeStep (ex_runner [ex_check 0]) (ex_registry h_ok) (ex_check 0) 0 =
     Some (ex_exec ''Succeeded'' '''' (fst (h_ok (ex_input 0 1) ex_deps 0)),
           (ex_runner [ex_check 0])\<lparr>vars := [''seen'' \<mapsto> AnyInt 1]\<rparr>, 1,
           [(ex_input 0 1, fst (h_ok (ex_input 0 1) ex_deps 0))]) \<and>
   sint (TotalRetries (ex_input 0 1)) = 0 \<and>
   sint (maxAttempts (workflow (ex_runner [ex_check 0])) (ex_check 0)) = 1"
  using ex_ok_run by (simp add: ex_defs2)

text \<open>
  The amended claim at a step with two retries whose handler always fails: three
  invocations, numbered 1, 2, 3, each with \<open>TotalRetries = 2\<close>.
\<close>

theorem attempt_budget_and_step_input_witness:
  "sint (GetRetries (workflow (ex_runner [ex_check 2])) (ex_check 2)) = 2 \<and>
   sint (maxAttempts (workflow (ex_runner [ex_check 2])) (ex_check 2)) = 3 \<and>
   (\<exists>exec r' w' calls.
      executeStep (ex_runner [ex_check 2]) (ex_registry h_fail) (ex_check 2) 0
        = Some (exec, r', w', calls) \<and>
      length calls = 3 \<and>
      map (\<lambda>c. sint (Attempt (fst c))) calls = [1, 2, 3] \<and>
      map (\<lambda>c. sint (TotalRetries (fst c))) calls = [2, 2, 2])"
proof -
  have hyps: "Get (ex_registry h_fail) (GetHandlerName (workflow (ex_runner [ex_check 2])) (ex_check 2))
      = Some h_fail \<and>
    sint (GetRetries (workflow (ex_runner [ex_check 2])) (ex_check 2)) < 2^63 - 2"
    by (simp add: ex_defs2)
  have R: "sint (GetRetries (workflow (ex_runner [ex_check 2])) (ex_check 2)) = 2"
    by (simp add: ex_defs2)
  have M: "sint (maxAttempts (workflow (ex_runner [ex_check 2])) (ex_check 2)) = 3"
    by (simp add: ex_defs2)
  have fails: "HasErrors (outcome h_fail (deps (ex_runner [ex_check 2]))
                (stepInput (ex_runner [ex_check 2]) (ex_check 2)) 0 k) \<and>
             \<not> skip_requested (outcome h_fail (deps (ex_runner [ex_check 2]))
                (stepInput (ex_runner [ex_check 2]) (ex_check 2)) 0 k)" for k
    by (simp add: outcome_def ex_defs)
  from attempt_budget_and_step_input [of "ex_runner [ex_check 2]" "ex_check 2"
      "ex_registry h_fail" h_fail 0, THEN conjunct2, THEN conjunct2, THEN conjunct2,
      THEN conjunct1, THEN mp, OF hyps]
  obtain exec r' w' calls where
    run: "executeStep (ex_runner [ex_check 2]) (ex_registry h_fail) (ex_check 2) 0
        = Some (exec, r', w', calls)"
    and log: "calls = attempts h_fail (deps (ex_runner [ex_check 2]))
                (stepInput (ex_runner [ex_check 2]) (ex_check 2)) 0 (length calls)"
    and len: "1 \<le> length calls"
      "int (length calls) \<le> sint (maxAttempts (workflow (ex_runner [ex_check 2])) (ex_check 2))"
    and inputs: "\<forall>i. i < length calls \<longrightarrow>
            sint (Attempt (fst (calls ! i))) = int i + 1 \<and>
            TotalRetries (fst (calls ! i)) = GetRetries (workflow (ex_runner [ex_check 2])) (ex_check 2)"
    and final: "int (length calls) < sint (maxAttempts (workflow (ex_runner [ex_check 2])) (ex_check 2)) \<longrightarrow>
            skip_requested (snd (last calls)) \<or> \<not> HasErrors (snd (last calls))"
    by blast
  have lastc: "snd (last calls) = outcome h_fail (deps (ex_runner [ex_check 2]))
                (stepInput (ex_runner [ex_check 2]) (ex_check 2)) 0 (length calls)"
    using attempts_last [OF len(1), of h_fail "deps (ex_runner [ex_check 2])"
        "stepInput (ex_runner [ex_check 2]) (ex_check 2)" 0] log by simp
  have "\<not> int (length calls) < 3"
    using final fails [of "length calls"] unfolding lastc M by blast
  then have l3: "length calls = 3" using len(2) unfolding M by simp
  have each: "sint (Attempt (fst (calls ! i))) = int i + 1 \<and>
      sint (TotalRetries (fst (calls ! i))) = 2" if "i < 3" for i
    using inputs [rule_format, of i] that l3 R by simp
  have i0: "sint (Attempt (fst (calls ! 0))) = 1" "sint (Attempt (fst (calls ! 1))) = 2"
    "sint (Attempt (fst (calls ! 2))) = 3"
    using each [of 0] each [of 1] each [of 2] by simp_all
  have t0: "sint (TotalRetries (fst (calls ! 0))) = 2" "sint (TotalRetries (fst (calls ! 1))) = 2"
    "sint (TotalRetries (fst (calls ! 2))) = 2"
    using each [of 0] each [of 1] each [of 2] by simp_all
  obtain a b c where abc: "calls = [a, b, c]"
    using l3 by (metis (no_types) length_0_conv length_Suc_conv numeral_3_eq_3)
  have maps: "map (\<lambda>c. sint (Attempt (fst c))) calls = [1, 2, 3]"
    "map (\<lambda>c. sint (TotalRetries (fst c))) calls = [2, 2, 2]"
    using i0 t0 unfolding abc by simp_all
  show ?thesis
    apply (intro conjI R M)
    apply (rule exI [of _ exec], rule exI [of _ r'], rule exI [of _ w'], rule exI [of _ calls])
    apply (intro conjI run l3 maps)
    done
qed

section \<open>GetExecutionOrder\<close>

lemmas resolve_defs = GetExecutionOrder_def build_maps_def add_dependent_def seed_queue_def
  index_or_def Let_def range_order_def

subsection \<open>The maps built by the first loop\<close>

lemma index_or_fmupd:
  "index_or z (fmupd k v m) k' = (if k = k' then v else index_or z m k')"
  by (simp add: index_or_def)

lemma index_or_fmempty: "index_or z fmempty k = z"
  by (simp add: index_or_def)

lemma index_or_add_dependent:
  "index_or [] (add_dependent name dep ds) d =
     (if dep = d then index_or [] ds d @ [name] else index_or [] ds d)"
  by (simp add: add_dependent_def index_or_fmupd)

lemma fold_add_dependent:
  "index_or [] (fold (add_dependent name) dl ds) d =
     index_or [] ds d @ replicate (count_list dl d) name"
proof (induction dl arbitrary: ds)
  case Nil
  show ?case by simp
next
  case (Cons dep dl)
  show ?case
    by (simp add: Cons.IH index_or_add_dependent replicate_app_Cons_same)
qed

lemma build_fold:
  "fold build_step steps (sm, ind, ds) =
     (fold (\<lambda>s. fmupd (WorkflowStep.Name s) s) steps sm,
      fold (\<lambda>s. fmupd (WorkflowStep.Name s) (int (length (Depends s)))) steps ind,
      fold (\<lambda>s. fold (add_dependent (WorkflowStep.Name s)) (Depends s)) steps ds)"
  by (induction steps arbitrary: sm ind ds) simp_all

lemma fold_fmupd_notin:
  "k \<notin> set (map f steps) \<Longrightarrow> fmlookup (fold (\<lambda>s. fmupd (f s) (g s)) steps m) k = fmlookup m k"
  by (induction steps arbitrary: m) auto

lemma fold_fmupd_distinct:
  "distinct (map f steps) \<Longrightarrow> s \<in> set steps \<Longrightarrow>
   fmlookup (fold (\<lambda>s. fmupd (f s) (g s)) steps m) (f s) = Some (g s)"
proof (induction steps arbitrary: m)
  case Nil
  then show ?case by simp
next
  case (Cons a steps)
  show ?case
  proof (cases "s \<in> set steps")
    case True
    then show ?thesis using Cons by simp
  next
    case False
    then have "s = a" using Cons.prems by simp
    then show ?thesis using Cons.prems by (simp add: fold_fmupd_notin)
  qed
qed

lemma fold_fmupd_in:
  "k \<in> set (map f steps) \<Longrightarrow>
   \<exists>s \<in> set steps. f s = k \<and> fmlookup (fold (\<lambda>s. fmupd (f s) (g s)) steps m) k = Some (g s)"
proof (induction steps arbitrary: m)
  case Nil
  then show ?case by simp
next
  case (Cons a steps)
  show ?case
  proof (cases "k \<in> set (map f steps)")
    case True
    from Cons.IH [OF True] show ?thesis by auto
  next
    case False
    then have "f a = k" using Cons.prems by auto
    then show ?thesis using False by (auto simp: fold_fmupd_notin)
  qed
qed

lemma fold_dependents:
  "index_or [] (fold (\<lambda>s. fold (add_dependent (WorkflowStep.Name s)) (Depends s)) steps ds) d =
     index_or [] ds d @ dependents_of steps d"
  by (induction steps arbitrary: ds) (simp_all add: dependents_of_def fold_add_dependent)

lemma build_maps_eq:
  "build_maps steps =
     (fold (\<lambda>s. fmupd (WorkflowStep.Name s) s) steps fmempty,
      fold (\<lambda>s. fmupd (WorkflowStep.Name s) (int (length (Depends s)))) steps fmempty,
      fold (\<lambda>s. fold (add_dependent (WorkflowStep.Name s)) (Depends s)) steps fmempty)"
  by (simp add: build_maps_def build_fold)

lemma build_dependents:
  "build_maps steps = (sm, ind, ds) \<Longrightarrow> index_or [] ds d = dependents_of steps d"
  by (auto simp: build_maps_eq fold_dependents index_or_fmempty)

lemma build_stepMap_dom:
  "build_maps steps = (sm, ind, ds) \<Longrightarrow>
   (fmlookup sm n = None) = (n \<notin> set (map WorkflowStep.Name steps))"
  using fold_fmupd_in [of n WorkflowStep.Name steps "\<lambda>s. s" fmempty]
    fold_fmupd_notin [of n WorkflowStep.Name steps "\<lambda>s. s" fmempty]
  by (auto simp: build_maps_eq)

lemma build_inDegree_dom:
  "build_maps steps = (sm, ind, ds) \<Longrightarrow>
   (fmlookup ind n = None) = (n \<notin> set (map WorkflowStep.Name steps))"
  using fold_fmupd_in [of n WorkflowStep.Name steps "\<lambda>s. int (length (Depends s))" fmempty]
    fold_fmupd_notin [of n WorkflowStep.Name steps "\<lambda>s. int (length (Depends s))" fmempty]
  by (auto simp: build_maps_eq)

lemma build_stepMap_distinct:
  "build_maps steps = (sm, ind, ds) \<Longrightarrow> distinct (map WorkflowStep.Name steps) \<Longrightarrow>
   s \<in> set steps \<Longrightarrow> fmlookup sm (WorkflowStep.Name s) = Some s"
  using fold_fmupd_distinct [of WorkflowStep.Name steps s "\<lambda>s. s" fmempty]
  by (auto simp: build_maps_eq)

lemma build_inDegree_distinct:
  "build_maps steps = (sm, ind, ds) \<Longrightarrow> distinct (map WorkflowStep.Name steps) \<Longrightarrow>
   s \<in> set steps \<Longrightarrow> fmlookup ind (WorkflowStep.Name s) = Some (int (length (Depends s)))"
  using fold_fmupd_distinct [of WorkflowStep.Name steps s "\<lambda>s. int (length (Depends s))" fmempty]
  by (auto simp: build_maps_eq)

lemma build_inDegree_nonneg:
  "build_maps steps = (sm, ind, ds) \<Longrightarrow> 0 \<le> index_or 0 ind n"
  using fold_fmupd_in [of n WorkflowStep.Name steps "\<lambda>s. int (length (Depends s))" fmempty]
    fold_fmupd_notin [of n WorkflowStep.Name steps "\<lambda>s. int (length (Depends s))" fmempty]
  by (cases "n \<in> set (map WorkflowStep.Name steps)") (auto simp: build_maps_eq index_or_def)

subsection \<open>Validation\<close>

lemma validate_depends_None:
  "(validate_depends sm name dl = None) = (\<forall>d \<in> set dl. fmlookup sm d \<noteq> None)"
  by (induction dl) auto

lemma validate_depends_Some:
  "validate_depends sm name dl = Some e \<Longrightarrow>
   \<exists>d \<in> set dl. fmlookup sm d = None \<and> e = UnknownDependency name d"
  by (induction dl) (auto split: if_splits)

lemma validate_steps_Cons_None:
  "(validate_steps sm (a # steps) = None) =
     (validate_depends sm (WorkflowStep.Name a) (Depends a) = None \<and> validate_steps sm steps = None)"
  by (simp split: option.splits)

lemma validate_steps_None:
  "(validate_steps sm steps = None) =
     (\<forall>s \<in> set steps. \<forall>d \<in> set (Depends s). fmlookup sm d \<noteq> None)"
proof (induction steps)
  case Nil
  show ?case by simp
next
  case (Cons a steps)
  show ?case
    unfolding validate_steps_Cons_None Cons.IH validate_depends_None by simp
qed

lemma validate_steps_Some:
  "validate_steps sm steps = Some e \<Longrightarrow>
   \<exists>s \<in> set steps. \<exists>d \<in> set (Depends s).
      fmlookup sm d = None \<and> e = UnknownDependency (WorkflowStep.Name s) d"
proof (induction steps)
  case Nil
  then show ?case by simp
next
  case (Cons a steps)
  show ?case
  proof (cases "validate_depends sm (WorkflowStep.Name a) (Depends a)")
    case None
    then have "validate_steps sm steps = Some e" using Cons.prems by simp
    from Cons.IH [OF this] show ?thesis by auto
  next
    case (Some e')
    then have "e' = e" using Cons.prems by simp
    with validate_depends_Some [OF Some] show ?thesis by auto
  qed
qed

lemma validate_build:
  assumes "build_maps steps = (sm, ind, ds)"
  shows "(validate_steps sm steps = None) = deps_known steps"
  using build_stepMap_dom [OF assms]
  by (auto simp: validate_steps_None deps_known_def)

subsection \<open>The inner loop over the dependents\<close>

lemma relax_eq:
  "relax k (m, q) =
     (fmupd k (index_or 0 m k - 1) m, if index_or 0 m k = 1 then q @ [k] else q)"
  by (simp add: Let_def index_or_fmupd)

lemma relax_fold_degree:
  "fold relax ks (m, q) = (m', q') \<Longrightarrow>
   index_or 0 m' n = index_or 0 m n - int (count_list ks n)"
proof (induction ks arbitrary: m q)
  case Nil
  then show ?case by simp
next
  case (Cons k ks)
  from Cons.prems have "fold relax ks (fmupd k (index_or 0 m k - 1) m,
      if index_or 0 m k = 1 then q @ [k] else q) = (m', q')"
    by (simp add: relax_eq del: relax.simps)
  from Cons.IH [OF this] show ?case by (simp add: index_or_fmupd)
qed

lemma relax_fold_dom:
  "fold relax ks (m, q) = (m', q') \<Longrightarrow> fmlookup m n \<noteq> None \<Longrightarrow> fmlookup m' n \<noteq> None"
proof (induction ks arbitrary: m q)
  case Nil
  then show ?case by simp
next
  case (Cons k ks)
  from Cons.prems(1) have "fold relax ks (fmupd k (index_or 0 m k - 1) m,
      if index_or 0 m k = 1 then q @ [k] else q) = (m', q')"
    by (simp add: relax_eq del: relax.simps)
  from Cons.IH [OF this] Cons.prems(2) show ?case by simp
qed

lemma relax_fold_lookup:
  assumes "fold relax ks (m, q) = (m', q')" and "fmlookup m n \<noteq> None"
  shows "fmlookup m' n = Some (index_or 0 m n - int (count_list ks n))"
proof -
  from relax_fold_dom [OF assms] obtain v where v: "fmlookup m' n = Some v" by auto
  then have "index_or 0 m' n = v" by (simp add: index_or_def)
  with relax_fold_degree [OF assms(1), of n] v show ?thesis by simp
qed

lemma count_pos_iff: "(1 \<le> int (count_list xs x)) = (x \<in> set xs)"
  using count_list_0_iff [of xs x] by (cases "count_list xs x") auto

lemma relax_fold_queue:
  "fold relax ks (m, q) = (m', q') \<Longrightarrow>
   \<exists>added. q' = q @ added \<and> distinct added \<and>
     (\<forall>n. (n \<in> set added) =
        (1 \<le> index_or 0 m n \<and> index_or 0 m n \<le> int (count_list ks n)))"
proof (induction ks arbitrary: m q)
  case Nil
  then show ?case by simp
next
  case (Cons k ks)
  define v where "v = index_or 0 m k"
  define m1 where "m1 = fmupd k (v - 1) m"
  define q1 where "q1 = (if v = 1 then q @ [k] else q)"
  have "relax k (m, q) = (m1, q1)"
    unfolding m1_def q1_def v_def by (rule relax_eq)
  with Cons.prems have "fold relax ks (m1, q1) = (m', q')"
    by (simp del: relax.simps)
  from Cons.IH [OF this] obtain added where
    q': "q' = q1 @ added" and d: "distinct added" and
    s: "\<And>n. (n \<in> set added) =
          (1 \<le> index_or 0 m1 n \<and> index_or 0 m1 n \<le> int (count_list ks n))"
    by blast
  have m1k: "index_or 0 m1 k = v - 1" by (simp add: m1_def index_or_fmupd)
  have m1n: "index_or 0 m1 n = index_or 0 m n" if "n \<noteq> k" for n
    using that by (simp add: m1_def index_or_fmupd)
  define added' where "added' = (if v = 1 then [k] else []) @ added"
  have 1: "q' = q @ added'" by (simp add: q' q1_def added'_def)
  have kin: "(k \<in> set added) = (2 \<le> v \<and> v \<le> int (count_list ks k) + 1)"
    unfolding s [of k] m1k by auto
  have 2: "distinct added'"
    using d kin by (simp add: added'_def)
  have 3: "(n \<in> set added') =
      (1 \<le> index_or 0 m n \<and> index_or 0 m n \<le> int (count_list (k # ks) n))" for n
  proof (cases "n = k")
    case True
    have "(k \<in> set added') = (v = 1 \<or> k \<in> set added)" by (simp add: added'_def)
    also have "\<dots> = (1 \<le> v \<and> v \<le> int (count_list ks k) + 1)"
      unfolding kin by auto
    finally show ?thesis using True by (auto simp: v_def)
  next
    case False
    then have "(n \<in> set added') = (n \<in> set added)" by (simp add: added'_def)
    then show ?thesis using False by (simp add: s [of n] m1n)
  qed
  from 1 2 3 show ?case by blast
qed

subsection \<open>Counting dependency entries\<close>

lemma dependents_of_Nil: "dependents_of [] d = []"
  by (simp add: dependents_of_def)

lemma dependents_of_Cons:
  "dependents_of (a # steps) d =
     replicate (count_list (Depends a) d) (WorkflowStep.Name a) @ dependents_of steps d"
  by (simp add: dependents_of_def)

lemma dependents_of_names:
  "n \<in> set (dependents_of steps d) \<Longrightarrow> n \<in> WorkflowStep.Name ` set steps"
proof (induction steps)
  case Nil
  then show ?case by (simp add: dependents_of_Nil)
next
  case (Cons a steps)
  from Cons.prems have "n = WorkflowStep.Name a \<or> n \<in> set (dependents_of steps d)"
    unfolding dependents_of_Cons by (auto simp: in_set_replicate)
  then show ?case using Cons.IH by auto
qed

lemma count_list_replicate_same: "count_list (replicate n y) y = n"
  by (induction n) simp_all

lemma count_list_replicate_other: "x \<noteq> y \<Longrightarrow> count_list (replicate n y) x = 0"
  by (induction n) simp_all

lemma count_list_replicate: "count_list (replicate n y) x = (if x = y then n else 0)"
  by (simp add: count_list_replicate_same count_list_replicate_other)

lemma count_dependents_notin:
  "n \<notin> WorkflowStep.Name ` set steps \<Longrightarrow> count_list (dependents_of steps d) n = 0"
  using dependents_of_names [of n steps d] by (simp add: count_list_0_iff) blast

lemma count_dependents_of:
  assumes "distinct (map WorkflowStep.Name steps)" and "s \<in> set steps"
  shows "count_list (dependents_of steps d) (WorkflowStep.Name s) = count_list (Depends s) d"
  using assms
proof (induction steps)
  case Nil
  then show ?case by simp
next
  case (Cons a steps)
  have na: "WorkflowStep.Name a \<notin> WorkflowStep.Name ` set steps"
    and ds: "distinct (map WorkflowStep.Name steps)"
    using Cons.prems(1) by simp_all
  show ?case
  proof (cases "s = a")
    case True
    have "count_list (dependents_of steps d) (WorkflowStep.Name a) = 0"
      by (rule count_dependents_notin [OF na])
    then show ?thesis
      unfolding True dependents_of_Cons by (simp add: count_list_replicate)
  next
    case False
    then have s: "s \<in> set steps" using Cons.prems(2) by simp
    then have "WorkflowStep.Name s \<in> WorkflowStep.Name ` set steps" by (rule imageI)
    then have ne: "WorkflowStep.Name s \<noteq> WorkflowStep.Name a" using na by metis
    have "count_list (dependents_of steps d) (WorkflowStep.Name s) = count_list (Depends s) d"
      by (rule Cons.IH [OF ds s])
    then show ?thesis
      unfolding dependents_of_Cons using ne by (simp add: count_list_replicate)
  qed
qed

lemma filter_count_split:
  "x \<notin> set done \<Longrightarrow>
   length (filter (\<lambda>d. d \<notin> set (done @ [x])) xs) + count_list xs x
     = length (filter (\<lambda>d. d \<notin> set done) xs)"
proof (induction xs)
  case Nil
  show ?case by simp
next
  case (Cons a xs)
  from Cons.IH [OF Cons.prems] Cons.prems show ?case
    by (cases "a = x") simp_all
qed

lemma remaining_snoc:
  "x \<notin> set done \<Longrightarrow>
   remaining (done @ [x]) s = remaining done s - int (count_list (Depends s) x)"
  using filter_count_split [of x "done" "Depends s"] unfolding remaining_def by linarith

lemma remaining_nonneg: "0 \<le> remaining done s"
  by (simp add: remaining_def)

lemma remaining_zero: "(remaining done s = 0) = (set (Depends s) \<subseteq> set done)"
proof -
  have "(filter (\<lambda>d. d \<notin> set done) (Depends s) = []) = (set (Depends s) \<subseteq> set done)"
    unfolding filter_empty_conv by blast
  then show ?thesis by (simp add: remaining_def)
qed

lemma remaining_Nil: "remaining [] s = int (length (Depends s))"
  by (simp add: remaining_def)

lemma deps_firstD:
  "deps_first order \<Longrightarrow> i < length order \<Longrightarrow> d \<in> set (Depends (order ! i)) \<Longrightarrow>
   \<exists>j<i. WorkflowStep.Name (order ! j) = d"
  unfolding deps_first_def by blast

lemma deps_firstI:
  "(\<And>i d. i < length order \<Longrightarrow> d \<in> set (Depends (order ! i)) \<Longrightarrow>
      \<exists>j<i. WorkflowStep.Name (order ! j) = d) \<Longrightarrow> deps_first order"
  unfolding deps_first_def by blast

lemma deps_first_Nil: "deps_first []"
  by (rule deps_firstI) simp

lemma deps_first_snoc:
  assumes a: "deps_first order"
    and b: "set (Depends s) \<subseteq> set (map WorkflowStep.Name order)"
  shows "deps_first (order @ [s])"
proof (rule deps_firstI)
  fix i d assume i: "i < length (order @ [s])" and d: "d \<in> set (Depends ((order @ [s]) ! i))"
  show "\<exists>j<i. WorkflowStep.Name ((order @ [s]) ! j) = d"
  proof (cases "i < length order")
    case True
    then have "d \<in> set (Depends (order ! i))" using d by (simp add: nth_append)
    from deps_firstD [OF a True this] obtain j where j: "j < i" "WorkflowStep.Name (order ! j) = d"
      by blast
    then have "WorkflowStep.Name ((order @ [s]) ! j) = d" using True by (simp add: nth_append)
    then show ?thesis using j(1) by blast
  next
    case False
    then have il: "i = length order" using i by simp
    then have "d \<in> set (Depends s)" using d by simp
    then have "d \<in> set (map WorkflowStep.Name order)" using b by blast
    then obtain j where j: "j < length order" "map WorkflowStep.Name order ! j = d"
      unfolding in_set_conv_nth by auto
    then have "WorkflowStep.Name ((order @ [s]) ! j) = d" by (simp add: nth_append)
    then show ?thesis using j(1) il by blast
  qed
qed

lemma deps_first_done:
  assumes a: "deps_first order" and s: "s \<in> set order"
  shows "set (Depends s) \<subseteq> set (map WorkflowStep.Name order)"
proof
  fix d assume d: "d \<in> set (Depends s)"
  from s obtain i where i: "i < length order" "order ! i = s"
    unfolding in_set_conv_nth by blast
  have "d \<in> set (Depends (order ! i))" using d i(2) by simp
  from deps_firstD [OF a i(1) this] obtain j where j: "j < i" "WorkflowStep.Name (order ! j) = d"
    by blast
  have "j < length order" using j(1) i(1) by simp
  then have "map WorkflowStep.Name order ! j \<in> set (map WorkflowStep.Name order)"
    by (intro nth_mem) simp
  then show "d \<in> set (map WorkflowStep.Name order)"
    using j(2) \<open>j < length order\<close> by simp
qed

lemma step_of_name:
  assumes "distinct (map WorkflowStep.Name steps)" "s \<in> set steps" "t \<in> set steps"
    "WorkflowStep.Name s = WorkflowStep.Name t"
  shows "s = t"
  using assms by (meson distinct_map inj_onD)

subsection \<open>One round of the queue loop keeps the invariant\<close>

lemma kahn_invD:
  assumes "kahn_inv steps queue ind order"
  shows "distinct (map WorkflowStep.Name order @ queue)"
    and "set order \<subseteq> set steps"
    and "set queue \<subseteq> set (map WorkflowStep.Name steps)"
    and "\<And>s. s \<in> set steps \<Longrightarrow>
           fmlookup ind (WorkflowStep.Name s) = Some (remaining (map WorkflowStep.Name order) s)"
    and "\<And>s. s \<in> set steps \<Longrightarrow>
           (WorkflowStep.Name s \<in> set queue) =
             (WorkflowStep.Name s \<notin> set (map WorkflowStep.Name order) \<and>
              remaining (map WorkflowStep.Name order) s = 0)"
    and "deps_first order"
  using assms unfolding kahn_inv_def by blast+

lemma kahn_invI:
  assumes "distinct (map WorkflowStep.Name order @ queue)"
    and "set order \<subseteq> set steps"
    and "set queue \<subseteq> set (map WorkflowStep.Name steps)"
    and "\<And>s. s \<in> set steps \<Longrightarrow>
           fmlookup ind (WorkflowStep.Name s) = Some (remaining (map WorkflowStep.Name order) s)"
    and "\<And>s. s \<in> set steps \<Longrightarrow>
           (WorkflowStep.Name s \<in> set queue) =
             (WorkflowStep.Name s \<notin> set (map WorkflowStep.Name order) \<and>
              remaining (map WorkflowStep.Name order) s = 0)"
    and "deps_first order"
  shows "kahn_inv steps queue ind order"
  using assms unfolding kahn_inv_def by blast

lemma kahn_step:
  assumes dist: "distinct (map WorkflowStep.Name steps)"
    and sm: "\<And>s. s \<in> set steps \<Longrightarrow> fmlookup sm (WorkflowStep.Name s) = Some s"
    and ds: "\<And>d. index_or [] ds d = dependents_of steps d"
    and inv: "kahn_inv steps (name # queue) ind order"
    and fold: "fold relax (index_or [] ds name) (ind, queue) = (ind', queue')"
  shows "kahn_inv steps queue' ind' (order @ [index_or zeroWorkflowStep sm name])"
proof -
  define dn where "dn = map WorkflowStep.Name order"
  note I = kahn_invD [OF inv, folded dn_def]
  have I1: "distinct (dn @ name # queue)" by (rule I(1))
  have I2: "set order \<subseteq> set steps" by (rule I(2))
  have I3: "set (name # queue) \<subseteq> set (map WorkflowStep.Name steps)" by (rule I(3))
  have I4: "fmlookup ind (WorkflowStep.Name s) = Some (remaining dn s)" if "s \<in> set steps" for s
    using I(4) that .
  have I5: "(WorkflowStep.Name s \<in> set (name # queue)) =
             (WorkflowStep.Name s \<notin> set dn \<and> remaining dn s = 0)" if "s \<in> set steps" for s
    using I(5) that .
  have I6: "deps_first order" by (rule I(6))
  have "name \<in> set (map WorkflowStep.Name steps)" using I3 by simp
  then obtain s0 where s0: "s0 \<in> set steps" "WorkflowStep.Name s0 = name" by auto
  have step0: "index_or zeroWorkflowStep sm name = s0"
    using sm [OF s0(1)] s0(2) by (simp add: index_or_def)
  have nd: "name \<notin> set dn" and nq: "name \<notin> set queue" and dd: "distinct dn"
    and dq: "distinct queue" and dj: "set dn \<inter> set queue = {}"
    using I1 by auto
  have r0: "remaining dn s0 = 0" using I5 [OF s0(1)] s0(2) by simp
  define ks where "ks = dependents_of steps name"
  have fold': "fold relax ks (ind, queue) = (ind', queue')"
    using fold unfolding ks_def ds .
  have cnt: "count_list ks (WorkflowStep.Name s) = count_list (Depends s) name"
    if "s \<in> set steps" for s
    unfolding ks_def by (rule count_dependents_of [OF dist that])
  have rem': "remaining (dn @ [name]) s = remaining dn s - int (count_list (Depends s) name)" for s
    by (rule remaining_snoc [OF nd])
  have ind: "index_or 0 ind (WorkflowStep.Name s) = remaining dn s" if "s \<in> set steps" for s
    using I4 [OF that] by (simp add: index_or_def)
  have I4': "fmlookup ind' (WorkflowStep.Name s) = Some (remaining (dn @ [name]) s)"
    if s: "s \<in> set steps" for s
  proof -
    have "fmlookup ind (WorkflowStep.Name s) \<noteq> None" using I4 [OF s] by simp
    from relax_fold_lookup [OF fold' this]
    show ?thesis unfolding ind [OF s] cnt [OF s] rem' .
  qed
  from relax_fold_queue [OF fold'] obtain added where
    q': "queue' = queue @ added" and dadd: "distinct added" and
    madd: "\<And>n. (n \<in> set added) =
        (1 \<le> index_or 0 ind n \<and> index_or 0 ind n \<le> int (count_list ks n))"
    by blast
  have addnames: "n \<in> WorkflowStep.Name ` set steps" if n: "n \<in> set added" for n
  proof -
    have "1 \<le> int (count_list ks n)" using madd [of n] n by linarith
    then have "n \<in> set ks" by (simp only: count_pos_iff)
    then show ?thesis unfolding ks_def by (rule dependents_of_names)
  qed
  have addstep: "(WorkflowStep.Name s \<in> set added) =
      (1 \<le> remaining dn s \<and> remaining (dn @ [name]) s = 0)" if s: "s \<in> set steps" for s
  proof -
    have nn: "0 \<le> remaining (dn @ [name]) s" by (rule remaining_nonneg)
    show ?thesis
      unfolding madd [of "WorkflowStep.Name s"] ind [OF s] cnt [OF s]
      using nn unfolding rem' by linarith
  qed
  have done0: "remaining dn s = 0" if s: "s \<in> set steps" and n: "WorkflowStep.Name s \<in> set dn" for s
  proof -
    from n obtain t where t: "t \<in> set order" "WorkflowStep.Name t = WorkflowStep.Name s"
      unfolding dn_def by auto
    have "t \<in> set steps" using t(1) I2 by blast
    then have "t = s" using step_of_name [OF dist _ s t(2)] by blast
    then have "s \<in> set order" using t(1) by simp
    from deps_first_done [OF I6 this] show ?thesis
      unfolding remaining_zero dn_def .
  qed
  have fresh: "n \<notin> set dn \<and> n \<noteq> name \<and> n \<notin> set queue" if n: "n \<in> set added" for n
  proof -
    from addnames [OF n] obtain s where s: "s \<in> set steps" "n = WorkflowStep.Name s" by blast
    have pos: "1 \<le> remaining dn s" using addstep [OF s(1)] n s(2) by simp
    have a: "n \<notin> set dn" using done0 [OF s(1)] pos s(2) by auto
    have b: "n \<notin> set (name # queue)" using I5 [OF s(1)] pos s(2) by auto
    show ?thesis using a b by simp
  qed
  have J1: "distinct (map WorkflowStep.Name (order @ [s0]) @ queue')"
  proof -
    have "distinct ((dn @ name # queue) @ added)"
      unfolding distinct_append using I1 dadd fresh by auto
    then show ?thesis unfolding q' dn_def s0(2) [symmetric] by simp
  qed
  have J2: "set (order @ [s0]) \<subseteq> set steps" using I2 s0(1) by simp
  have J3: "set queue' \<subseteq> set (map WorkflowStep.Name steps)"
    unfolding q' using I3 addnames by auto
  have J4: "fmlookup ind' (WorkflowStep.Name s) =
      Some (remaining (map WorkflowStep.Name (order @ [s0])) s)" if s: "s \<in> set steps" for s
    using I4' [OF s] unfolding dn_def s0(2) [symmetric] by simp
  have J5: "(WorkflowStep.Name s \<in> set queue') =
             (WorkflowStep.Name s \<notin> set (map WorkflowStep.Name (order @ [s0])) \<and>
              remaining (map WorkflowStep.Name (order @ [s0])) s = 0)" if s: "s \<in> set steps" for s
  proof -
    have nn: "0 \<le> remaining (dn @ [name]) s" by (rule remaining_nonneg)
    have nn0: "0 \<le> remaining dn s" by (rule remaining_nonneg)
    have le: "remaining (dn @ [name]) s \<le> remaining dn s" unfolding rem' by simp
    have goal: "(WorkflowStep.Name s \<in> set queue \<or> WorkflowStep.Name s \<in> set added) =
        (WorkflowStep.Name s \<notin> set dn \<and> WorkflowStep.Name s \<noteq> name \<and>
         remaining (dn @ [name]) s = 0)"
    proof (cases "remaining dn s = 0")
      case True
      then have z: "remaining (dn @ [name]) s = 0" using nn le by linarith
      have "WorkflowStep.Name s \<notin> set added" using addstep [OF s] True by simp
      moreover have "(WorkflowStep.Name s \<in> set queue) =
          (WorkflowStep.Name s \<notin> set dn \<and> WorkflowStep.Name s \<noteq> name)"
        using I5 [OF s] True nq by auto
      ultimately show ?thesis using z by simp
    next
      case False
      then have pos: "1 \<le> remaining dn s" using nn0 by linarith
      have a: "WorkflowStep.Name s \<notin> set dn" using done0 [OF s] False by blast
      have b: "WorkflowStep.Name s \<notin> set (name # queue)" using I5 [OF s] False by blast
      show ?thesis using addstep [OF s] pos a b by simp
    qed
    show ?thesis
      unfolding q' using goal unfolding dn_def s0(2) [symmetric] by auto
  qed
  have J6: "deps_first (order @ [s0])"
  proof (rule deps_first_snoc [OF I6])
    show "set (Depends s0) \<subseteq> set (map WorkflowStep.Name order)"
      using r0 unfolding remaining_zero dn_def .
  qed
  show ?thesis
    unfolding step0 by (rule kahn_invI [OF J1 J2 J3 J4 J5 J6])
qed

subsection \<open>The queue loop as a whole\<close>

lemma kahn_loop_inv:
  "distinct (map WorkflowStep.Name steps) \<Longrightarrow>
   (\<forall>s \<in> set steps. fmlookup sm (WorkflowStep.Name s) = Some s) \<Longrightarrow>
   (\<forall>d. index_or [] ds d = dependents_of steps d) \<Longrightarrow>
   kahn_inv steps queue ind order \<Longrightarrow>
   \<exists>ind'. kahn_inv steps [] ind' (kahn_loop sm ds queue ind order)"
proof (induction sm ds queue ind order rule: kahn_loop.induct)
  case (1 stepMap dependents inDegree order)
  then show ?case by auto
next
  case (2 stepMap dependents name queue inDegree order)
  obtain ind' queue' where
    f: "fold relax (index_or [] dependents name) (inDegree, queue) = (ind', queue')"
    by (cases "fold relax (index_or [] dependents name) (inDegree, queue)")
  have sm: "\<And>s. s \<in> set steps \<Longrightarrow> fmlookup stepMap (WorkflowStep.Name s) = Some s"
    using "2.prems"(2) by blast
  have ds: "\<And>d. index_or [] dependents d = dependents_of steps d"
    using "2.prems"(3) by blast
  have inv': "kahn_inv steps queue' ind' (order @ [index_or zeroWorkflowStep stepMap name])"
    by (rule kahn_step [OF "2.prems"(1) sm ds "2.prems"(4) f])
  from "2.IH" [OF f [symmetric] "2.prems"(1) "2.prems"(2) "2.prems"(3) inv']
  obtain ind'' where "kahn_inv steps [] ind''
      (kahn_loop stepMap dependents queue' ind' (order @ [index_or zeroWorkflowStep stepMap name]))"
    by blast
  then show ?case by (auto simp: f)
qed

lemma kahn_loop_bound:
  "finite N \<Longrightarrow> (\<forall>d. set (index_or [] ds d) \<subseteq> N) \<Longrightarrow>
   (\<exists>P. distinct (P @ queue) \<and> set (P @ queue) \<subseteq> N \<and> length P = length order \<and>
        (\<forall>n \<in> set (P @ queue). index_or 0 ind n \<le> 0)) \<Longrightarrow>
   length (kahn_loop sm ds queue ind order) \<le> card N"
proof (induction sm ds queue ind order rule: kahn_loop.induct)
  case (1 stepMap dependents inDegree order)
  from "1.prems"(3) obtain P where P: "distinct P" "set P \<subseteq> N" "length P = length order"
    by auto
  have "length order = card (set P)" using P(1,3) by (simp add: distinct_card)
  also have "\<dots> \<le> card N" by (rule card_mono [OF "1.prems"(1) P(2)])
  finally show ?case by simp
next
  case (2 stepMap dependents name queue inDegree order)
  obtain ind' queue' where
    f: "fold relax (index_or [] dependents name) (inDegree, queue) = (ind', queue')"
    by (cases "fold relax (index_or [] dependents name) (inDegree, queue)")
  define ks where "ks = index_or [] dependents name"
  have f': "fold relax ks (inDegree, queue) = (ind', queue')" using f by (simp add: ks_def)
  have ksN: "set ks \<subseteq> N" using "2.prems"(2) by (simp add: ks_def)
  from "2.prems"(3) obtain P where
    P1: "distinct (P @ name # queue)" and P2: "set (P @ name # queue) \<subseteq> N" and
    P3: "length P = length order" and
    P4: "\<And>n. n \<in> set (P @ name # queue) \<Longrightarrow> index_or 0 inDegree n \<le> 0"
    by blast
  from relax_fold_queue [OF f'] obtain added where
    q': "queue' = queue @ added" and dadd: "distinct added" and
    madd: "\<And>n. (n \<in> set added) =
        (1 \<le> index_or 0 inDegree n \<and> index_or 0 inDegree n \<le> int (count_list ks n))"
    by blast
  have deg: "index_or 0 ind' n = index_or 0 inDegree n - int (count_list ks n)" for n
    by (rule relax_fold_degree [OF f'])
  have addks: "n \<in> set ks" if "n \<in> set added" for n
  proof -
    have "1 \<le> int (count_list ks n)" using madd [of n] that by linarith
    then show ?thesis by (simp only: count_pos_iff)
  qed
  have fresh: "n \<notin> set (P @ name # queue)" if "n \<in> set added" for n
    using madd [of n] that P4 [of n] by fastforce
  define P' where "P' = P @ [name]"
  have Q1: "distinct (P' @ queue')"
  proof -
    have "distinct ((P @ name # queue) @ added)"
      unfolding distinct_append using P1 dadd fresh by auto
    then show ?thesis by (simp add: P'_def q')
  qed
  have Q2: "set (P' @ queue') \<subseteq> N"
    using P2 addks ksN by (auto simp: P'_def q')
  have Q3: "length P' = length (order @ [index_or zeroWorkflowStep stepMap name])"
    using P3 by (simp add: P'_def)
  have Q4: "\<forall>n \<in> set (P' @ queue'). index_or 0 ind' n \<le> 0"
  proof
    fix n assume n: "n \<in> set (P' @ queue')"
    then have "n \<in> set (P @ name # queue) \<or> n \<in> set added" by (auto simp: P'_def q')
    then show "index_or 0 ind' n \<le> 0"
    proof
      assume "n \<in> set (P @ name # queue)"
      from P4 [OF this] show ?thesis unfolding deg by simp
    next
      assume "n \<in> set added"
      then show ?thesis using madd [of n] unfolding deg by simp
    qed
  qed
  have ex: "\<exists>P. distinct (P @ queue') \<and> set (P @ queue') \<subseteq> N \<and>
        length P = length (order @ [index_or zeroWorkflowStep stepMap name]) \<and>
        (\<forall>n \<in> set (P @ queue'). index_or 0 ind' n \<le> 0)"
    using Q1 Q2 Q3 Q4 by blast
  from "2.IH" [OF f [symmetric] "2.prems"(1) "2.prems"(2) ex]
  show ?case by (simp add: f)
qed

subsection \<open>The result of GetExecutionOrder\<close>

lemma GetExecutionOrder_unknown:
  assumes "\<not> deps_known (WorkflowDefinition.Steps w)"
  shows "\<exists>s \<in> set (WorkflowDefinition.Steps w). \<exists>d \<in> set (Depends s).
           d \<notin> set (map WorkflowStep.Name (WorkflowDefinition.Steps w)) \<and>
           GetExecutionOrder w keyOrder = Inl (UnknownDependency (WorkflowStep.Name s) d)"
proof -
  obtain sm ind ds where b: "build_maps (WorkflowDefinition.Steps w) = (sm, ind, ds)"
    by (cases "build_maps (WorkflowDefinition.Steps w)")
  from assms validate_build [OF b] obtain e where
    e: "validate_steps sm (WorkflowDefinition.Steps w) = Some e" by auto
  from validate_steps_Some [OF e] obtain s d where
    s: "s \<in> set (WorkflowDefinition.Steps w)" and d: "d \<in> set (Depends s)" and
    n: "fmlookup sm d = None" and ee: "e = UnknownDependency (WorkflowStep.Name s) d"
    by blast
  have "d \<notin> set (map WorkflowStep.Name (WorkflowDefinition.Steps w))"
    using build_stepMap_dom [OF b, of d] n by simp
  moreover have "GetExecutionOrder w keyOrder = Inl (UnknownDependency (WorkflowStep.Name s) d)"
    by (simp add: GetExecutionOrder_def b e ee)
  ultimately show ?thesis using s d by blast
qed

lemma GetExecutionOrder_known:
  assumes k: "deps_known (WorkflowDefinition.Steps w)"
    and b: "build_maps (WorkflowDefinition.Steps w) = (sm, ind, ds)"
  shows "GetExecutionOrder w keyOrder =
     (if length (kahn_loop sm ds (seed_queue ind keyOrder) ind []) \<noteq> length (WorkflowDefinition.Steps w)
      then Inl DependencyCycle
      else Inr (kahn_loop sm ds (seed_queue ind keyOrder) ind []))"
proof -
  have "validate_steps sm (WorkflowDefinition.Steps w) = None"
    using validate_build [OF b] k by simp
  then show ?thesis by (simp add: GetExecutionOrder_def b Let_def)
qed

lemma GetExecutionOrder_Inr:
  assumes "GetExecutionOrder w keyOrder = Inr order"
    and b: "build_maps (WorkflowDefinition.Steps w) = (sm, ind, ds)"
  shows "deps_known (WorkflowDefinition.Steps w) \<and>
         order = kahn_loop sm ds (seed_queue ind keyOrder) ind [] \<and>
         length order = length (WorkflowDefinition.Steps w)"
proof -
  have k: "deps_known (WorkflowDefinition.Steps w)"
  proof (rule ccontr)
    assume "\<not> deps_known (WorkflowDefinition.Steps w)"
    from GetExecutionOrder_unknown [OF this, of keyOrder] assms(1) show False by auto
  qed
  from assms(1) show ?thesis
    unfolding GetExecutionOrder_known [OF k b] using k by (auto split: if_splits)
qed

lemma seed_queue_bound:
  assumes b: "build_maps steps = (sm, ind, ds)"
    and r: "distinct keyOrder" "set keyOrder = set (map WorkflowStep.Name steps)"
  shows "length (kahn_loop sm ds (seed_queue ind keyOrder) ind [])
           \<le> card (set (map WorkflowStep.Name steps))"
proof (rule kahn_loop_bound)
  show "finite (set (map WorkflowStep.Name steps))" by simp
  show "\<forall>d. set (index_or [] ds d) \<subseteq> set (map WorkflowStep.Name steps)"
    unfolding build_dependents [OF b] using dependents_of_names by auto
  have 1: "distinct (seed_queue ind keyOrder)" using r(1) by (simp add: seed_queue_def)
  have 2: "set (seed_queue ind keyOrder) \<subseteq> set (map WorkflowStep.Name steps)"
    using r(2) by (auto simp: seed_queue_def)
  have 3: "\<forall>n \<in> set (seed_queue ind keyOrder). index_or 0 ind n \<le> 0"
    by (auto simp: seed_queue_def index_or_def)
  show "\<exists>P. distinct (P @ seed_queue ind keyOrder) \<and>
        set (P @ seed_queue ind keyOrder) \<subseteq> set (map WorkflowStep.Name steps) \<and>
        length P = length ([] :: WorkflowStep list) \<and>
        (\<forall>n \<in> set (P @ seed_queue ind keyOrder). index_or 0 ind n \<le> 0)"
    using 1 2 3 by (intro exI [of _ "[]"]) simp
qed

lemma GetExecutionOrder_distinct:
  assumes run: "GetExecutionOrder w keyOrder = Inr order"
    and r: "range_order w keyOrder"
  shows "distinct (map WorkflowStep.Name (WorkflowDefinition.Steps w))"
proof -
  obtain sm ind ds where b: "build_maps (WorkflowDefinition.Steps w) = (sm, ind, ds)"
    by (cases "build_maps (WorkflowDefinition.Steps w)")
  from GetExecutionOrder_Inr [OF run b]
  have o: "order = kahn_loop sm ds (seed_queue ind keyOrder) ind []"
    and l: "length order = length (WorkflowDefinition.Steps w)" by blast+
  have r': "distinct keyOrder"
    "set keyOrder = set (map WorkflowStep.Name (WorkflowDefinition.Steps w))"
    using r by (simp_all add: range_order_def)
  have "length order \<le> card (set (map WorkflowStep.Name (WorkflowDefinition.Steps w)))"
    unfolding o by (rule seed_queue_bound [OF b r'])
  moreover have "card (set (map WorkflowStep.Name (WorkflowDefinition.Steps w)))
      \<le> length (map WorkflowStep.Name (WorkflowDefinition.Steps w))"
    by (rule card_length)
  ultimately have "card (set (map WorkflowStep.Name (WorkflowDefinition.Steps w)))
      = length (map WorkflowStep.Name (WorkflowDefinition.Steps w))"
    using l by simp
  then show ?thesis by (rule card_distinct)
qed

lemma seed_queue_inv:
  assumes b: "build_maps steps = (sm, ind, ds)"
    and dist: "distinct (map WorkflowStep.Name steps)"
    and r: "distinct keyOrder" "set keyOrder = set (map WorkflowStep.Name steps)"
  shows "kahn_inv steps (seed_queue ind keyOrder) ind []"
proof (rule kahn_invI)
  show "distinct (map WorkflowStep.Name [] @ seed_queue ind keyOrder)"
    using r(1) by (simp add: seed_queue_def)
  show "set [] \<subseteq> set steps" by simp
  show "set (seed_queue ind keyOrder) \<subseteq> set (map WorkflowStep.Name steps)"
    using r(2) by (auto simp: seed_queue_def)
  show "fmlookup ind (WorkflowStep.Name s) = Some (remaining (map WorkflowStep.Name []) s)"
    if "s \<in> set steps" for s
    using build_inDegree_distinct [OF b dist that] by (simp add: remaining_Nil)
  show "(WorkflowStep.Name s \<in> set (seed_queue ind keyOrder)) =
          (WorkflowStep.Name s \<notin> set (map WorkflowStep.Name []) \<and>
           remaining (map WorkflowStep.Name []) s = 0)" if "s \<in> set steps" for s
    using build_inDegree_distinct [OF b dist that] r(2) that
    by (auto simp: seed_queue_def remaining_Nil)
  show "deps_first []" by (rule deps_first_Nil)
qed

lemma kahn_result:
  assumes b: "build_maps steps = (sm, ind, ds)"
    and dist: "distinct (map WorkflowStep.Name steps)"
    and r: "distinct keyOrder" "set keyOrder = set (map WorkflowStep.Name steps)"
  shows "\<exists>ind'. kahn_inv steps [] ind' (kahn_loop sm ds (seed_queue ind keyOrder) ind [])"
proof (rule kahn_loop_inv [OF dist])
  show "\<forall>s \<in> set steps. fmlookup sm (WorkflowStep.Name s) = Some s"
    using build_stepMap_distinct [OF b dist] by blast
  show "\<forall>d. index_or [] ds d = dependents_of steps d"
    using build_dependents [OF b] by blast
  show "kahn_inv steps (seed_queue ind keyOrder) ind []"
    by (rule seed_queue_inv [OF b dist r])
qed

lemma GetExecutionOrder_sound:
  assumes run: "GetExecutionOrder w keyOrder = Inr order"
    and r: "range_order w keyOrder"
  shows "mset order = mset (WorkflowDefinition.Steps w) \<and> deps_first order \<and>
         distinct (map WorkflowStep.Name (WorkflowDefinition.Steps w)) \<and>
         deps_known (WorkflowDefinition.Steps w)"
proof -
  let ?steps = "WorkflowDefinition.Steps w"
  obtain sm ind ds where b: "build_maps ?steps = (sm, ind, ds)"
    by (cases "build_maps ?steps")
  from GetExecutionOrder_Inr [OF run b]
  have k: "deps_known ?steps"
    and o: "order = kahn_loop sm ds (seed_queue ind keyOrder) ind []"
    and l: "length order = length ?steps" by blast+
  have dist: "distinct (map WorkflowStep.Name ?steps)"
    by (rule GetExecutionOrder_distinct [OF run r])
  have r': "distinct keyOrder" "set keyOrder = set (map WorkflowStep.Name ?steps)"
    using r by (simp_all add: range_order_def)
  from kahn_result [OF b dist r'] obtain ind' where inv: "kahn_inv ?steps [] ind' order"
    unfolding o by blast
  note D = kahn_invD [OF inv]
  have dn: "distinct (map WorkflowStep.Name order)" using D(1) by simp
  then have dord: "distinct order" by (simp add: distinct_map)
  have dsteps: "distinct ?steps" using dist by (simp add: distinct_map)
  have "card (set order) = card (set ?steps)"
    using dord dsteps l by (simp add: distinct_card)
  then have "set order = set ?steps"
    using D(2) by (intro card_subset_eq) simp_all
  then have "mset order = mset ?steps"
    using dord dsteps by (simp add: set_eq_iff_mset_eq_distinct)
  then show ?thesis using D(6) dist k by simp
qed

lemma depends_on_set: "set xs = set ys \<Longrightarrow> depends_on xs = depends_on ys"
  by (simp add: depends_on_def)

lemma deps_first_acyclic:
  assumes a: "deps_first order" and d: "distinct (map WorkflowStep.Name order)"
  shows "acyclic (depends_on order)"
proof -
  define f where "f n = (LEAST i. i < length order \<and> WorkflowStep.Name (order ! i) = n)" for n
  have fi: "f (WorkflowStep.Name (order ! i)) = i" if i: "i < length order" for i
    unfolding f_def
  proof (rule Least_equality)
    show "i < length order \<and> WorkflowStep.Name (order ! i) = WorkflowStep.Name (order ! i)"
      using i by simp
  next
    fix y assume y: "y < length order \<and> WorkflowStep.Name (order ! y) = WorkflowStep.Name (order ! i)"
    then have "map WorkflowStep.Name order ! y = map WorkflowStep.Name order ! i" using i by simp
    then have "y = i" using nth_eq_iff_index_eq [OF d, of y i] y i by simp
    then show "i \<le> y" by simp
  qed
  have "acyclic ((depends_on order)\<inverse>)"
  proof (rule acyclicI_order [where f = f])
    fix n dd assume "(n, dd) \<in> (depends_on order)\<inverse>"
    then have "(dd, n) \<in> depends_on order" by simp
    then obtain s where s: "s \<in> set order" "WorkflowStep.Name s = n" "dd \<in> set (Depends s)"
      unfolding depends_on_def by blast
    from s(1) obtain i where i: "i < length order" "order ! i = s"
      unfolding in_set_conv_nth by blast
    have "dd \<in> set (Depends (order ! i))" using s(3) i(2) by simp
    from deps_firstD [OF a i(1) this] obtain j where j: "j < i" "WorkflowStep.Name (order ! j) = dd"
      by blast
    have jl: "j < length order" using j(1) i(1) by simp
    have "f dd = j" using fi [OF jl] j(2) by simp
    moreover have "f n = i" using fi [OF i(1)] i(2) s(2) by simp
    ultimately show "f dd < f n" using j(1) by simp
  qed
  then show ?thesis by (simp only: acyclic_converse)
qed

lemma finite_depends_on: "finite (depends_on steps)"
proof -
  have "depends_on steps \<subseteq> set (concat (map Depends steps)) \<times> set (map WorkflowStep.Name steps)"
    unfolding depends_on_def by auto
  then show ?thesis by (rule finite_subset) simp
qed

lemma GetExecutionOrder_complete:
  assumes r: "range_order w keyOrder"
    and dist: "distinct (map WorkflowStep.Name (WorkflowDefinition.Steps w))"
    and k: "deps_known (WorkflowDefinition.Steps w)"
    and acyc: "acyclic (depends_on (WorkflowDefinition.Steps w))"
  shows "\<exists>order. GetExecutionOrder w keyOrder = Inr order"
proof -
  let ?steps = "WorkflowDefinition.Steps w"
  obtain sm ind ds where b: "build_maps ?steps = (sm, ind, ds)"
    by (cases "build_maps ?steps")
  define res where "res = kahn_loop sm ds (seed_queue ind keyOrder) ind []"
  have r': "distinct keyOrder" "set keyOrder = set (map WorkflowStep.Name ?steps)"
    using r by (simp_all add: range_order_def)
  from kahn_result [OF b dist r'] obtain ind' where inv: "kahn_inv ?steps [] ind' res"
    unfolding res_def by blast
  note D = kahn_invD [OF inv]
  have dn: "distinct (map WorkflowStep.Name res)" using D(1) by simp
  then have dres: "distinct res" by (simp add: distinct_map)
  have dsteps: "distinct ?steps" using dist by (simp add: distinct_map)
  have wf: "wf (depends_on ?steps)"
    by (rule finite_acyclic_wf [OF finite_depends_on acyc])
  have waiting: "\<exists>d \<in> set (Depends s). d \<notin> set (map WorkflowStep.Name res)"
    if s: "s \<in> set ?steps" and n: "WorkflowStep.Name s \<notin> set (map WorkflowStep.Name res)" for s
  proof -
    have "remaining (map WorkflowStep.Name res) s \<noteq> 0" using D(5) [OF s] n by simp
    then show ?thesis unfolding remaining_zero by blast
  qed
  define Q where "Q = {n \<in> set (map WorkflowStep.Name ?steps). n \<notin> set (map WorkflowStep.Name res)}"
  have empty: "Q = {}"
  proof (rule ccontr)
    assume "Q \<noteq> {}"
    then obtain x where x: "x \<in> Q" by blast
    from wf x obtain z where z: "z \<in> Q" and min: "\<And>y. (y, z) \<in> depends_on ?steps \<Longrightarrow> y \<notin> Q"
      by (rule wfE_min) blast
    from z obtain s where s: "s \<in> set ?steps" "WorkflowStep.Name s = z"
      and nz: "z \<notin> set (map WorkflowStep.Name res)"
      unfolding Q_def by auto
    from waiting [OF s(1)] nz s(2) obtain d where
      d: "d \<in> set (Depends s)" "d \<notin> set (map WorkflowStep.Name res)" by auto
    have "d \<in> set (map WorkflowStep.Name ?steps)"
      using k d(1) s(1) unfolding deps_known_def by auto
    then have "d \<in> Q" using d(2) unfolding Q_def by simp
    moreover have "(d, z) \<in> depends_on ?steps"
      unfolding depends_on_def using s d(1) by blast
    ultimately show False using min by blast
  qed
  have "set ?steps \<subseteq> set res"
  proof
    fix s assume s: "s \<in> set ?steps"
    have "WorkflowStep.Name s \<in> set (map WorkflowStep.Name res)"
      using empty s unfolding Q_def by auto
    then obtain t where t: "t \<in> set res" "WorkflowStep.Name t = WorkflowStep.Name s" by auto
    have "t \<in> set ?steps" using t(1) D(2) by blast
    then have "t = s" using step_of_name [OF dist _ s t(2)] by blast
    then show "s \<in> set res" using t(1) by simp
  qed
  then have "set res = set ?steps" using D(2) by blast
  then have "length res = length ?steps"
    using dres dsteps by (metis distinct_card)
  then have "GetExecutionOrder w keyOrder = Inr res"
    unfolding GetExecutionOrder_known [OF k b] res_def by simp
  then show ?thesis by blast
qed

lemma self_dependency_cyclic:
  "s \<in> set steps \<Longrightarrow> WorkflowStep.Name s \<in> set (Depends s) \<Longrightarrow> \<not> acyclic (depends_on steps)"
proof -
  assume s: "s \<in> set steps" "WorkflowStep.Name s \<in> set (Depends s)"
  then have "(WorkflowStep.Name s, WorkflowStep.Name s) \<in> depends_on steps"
    unfolding depends_on_def by blast
  then have "(WorkflowStep.Name s, WorkflowStep.Name s) \<in> (depends_on steps)\<^sup>+" by (rule r_into_trancl)
  then show ?thesis unfolding acyclic_def by blast
qed

lemma GetExecutionOrder_cycle:
  assumes r: "range_order w keyOrder"
    and k: "deps_known (WorkflowDefinition.Steps w)"
    and c: "\<not> acyclic (depends_on (WorkflowDefinition.Steps w))"
  shows "GetExecutionOrder w keyOrder = Inl DependencyCycle"
proof -
  obtain sm ind ds where b: "build_maps (WorkflowDefinition.Steps w) = (sm, ind, ds)"
    by (cases "build_maps (WorkflowDefinition.Steps w)")
  show ?thesis
  proof (rule ccontr)
    assume "GetExecutionOrder w keyOrder \<noteq> Inl DependencyCycle"
    then obtain order where run: "GetExecutionOrder w keyOrder = Inr order"
      unfolding GetExecutionOrder_known [OF k b] by (auto split: if_splits)
    from GetExecutionOrder_sound [OF run r]
    have m: "mset order = mset (WorkflowDefinition.Steps w)" and df: "deps_first order"
      and dist: "distinct (map WorkflowStep.Name (WorkflowDefinition.Steps w))" by blast+
    have "mset (map WorkflowStep.Name order) = mset (map WorkflowStep.Name (WorkflowDefinition.Steps w))"
      using m by (metis mset_map)
    then have "distinct (map WorkflowStep.Name order)"
      using dist by (metis mset_eq_imp_distinct_iff)
    from deps_first_acyclic [OF df this] have "acyclic (depends_on order)" .
    moreover have "set order = set (WorkflowDefinition.Steps w)" using m by (rule mset_eq_setD)
    ultimately have "acyclic (depends_on (WorkflowDefinition.Steps w))"
      using depends_on_set by metis
    then show False using c by blast
  qed
qed

text \<open>
  Claim C1, as amended. For every workflow whose step names are pairwise distinct, whose
  every declared dependency names a step of the workflow and whose dependency relation is
  acyclic, and for every order in which the seeding loop meets the keys of its map,
  \<open>GetExecutionOrder\<close> returns an order and no error; the order is a permutation of the
  workflow's steps, and every declared dependency of the step at index \<open>i\<close> is the name of
  a step at an index below \<open>i\<close>.
\<close>

theorem execution_order_topological:
  assumes "range_order w keyOrder"
    and "distinct (map WorkflowStep.Name (WorkflowDefinition.Steps w))"
    and "deps_known (WorkflowDefinition.Steps w)"
    and "acyclic (depends_on (WorkflowDefinition.Steps w))"
  shows "\<exists>order. GetExecutionOrder w keyOrder = Inr order \<and>
           mset order = mset (WorkflowDefinition.Steps w) \<and> deps_first order"
proof -
  from GetExecutionOrder_complete [OF assms] obtain order where
    run: "GetExecutionOrder w keyOrder = Inr order" by blast
  from GetExecutionOrder_sound [OF run assms(1)] run show ?thesis by blast
qed

text \<open>
  The claim as stated fails: two steps that share the name \<open>a\<close> and have no dependencies
  form a workflow whose dependency relation is acyclic (it is empty) and whose every
  dependency is known, and \<open>GetExecutionOrder\<close> returns the cycle error for it. The maps
  hold one entry for \<open>a\<close>, so one step is output and the length check fails.
\<close>

theorem duplicate_names_counterexample:
  "deps_known (WorkflowDefinition.Steps (ex_workflow ex_dup)) \<and>
   acyclic (depends_on (WorkflowDefinition.Steps (ex_workflow ex_dup))) \<and>
   range_order (ex_workflow ex_dup) [''a''] \<and>
   GetExecutionOrder (ex_workflow ex_dup) [''a''] = Inl DependencyCycle"
proof -
  have "depends_on (WorkflowDefinition.Steps (ex_workflow ex_dup)) = {}"
    by (auto simp: depends_on_def ex_dup_def ex_workflow_def ex_step_def)
  then have "acyclic (depends_on (WorkflowDefinition.Steps (ex_workflow ex_dup)))"
    by (simp add: acyclic_def)
  moreover have "deps_known (WorkflowDefinition.Steps (ex_workflow ex_dup))"
    by (simp add: deps_known_def ex_dup_def ex_workflow_def ex_step_def)
  moreover have "range_order (ex_workflow ex_dup) [''a'']"
    by (simp add: range_order_def ex_dup_def ex_workflow_def ex_step_def)
  moreover have "GetExecutionOrder (ex_workflow ex_dup) [''a''] = Inl DependencyCycle"
    by (simp add: resolve_defs ex_dup_def ex_workflow_def ex_step_def)
  ultimately show ?thesis by blast
qed

lemma ex_chain_run:
  "GetExecutionOrder (ex_workflow ex_chain) [''deploy'', ''test'', ''build''] =
     Inr [ex_step ''build'' [] TemplateInit 0, ex_step ''test'' [''build''] TemplateAction 0,
          ex_step ''deploy'' [''test''] TemplateAction 0]"
  by (simp add: resolve_defs ex_chain_def ex_workflow_def ex_step_def)

lemma ex_chain_acyclic: "acyclic (depends_on (WorkflowDefinition.Steps (ex_workflow ex_chain)))"
proof -
  let ?b = "ex_step ''build'' [] TemplateInit 0"
  let ?t = "ex_step ''test'' [''build''] TemplateAction 0"
  let ?d = "ex_step ''deploy'' [''test''] TemplateAction 0"
  have 1: "deps_first ([] @ [?b])"
    by (rule deps_first_snoc [OF deps_first_Nil]) (simp add: ex_step_def)
  have 2: "deps_first (([] @ [?b]) @ [?t])"
    by (rule deps_first_snoc [OF 1]) (simp add: ex_step_def)
  have 3: "deps_first ((([] @ [?b]) @ [?t]) @ [?d])"
    by (rule deps_first_snoc [OF 2]) (simp add: ex_step_def)
  have "distinct (map WorkflowStep.Name ((([] @ [?b]) @ [?t]) @ [?d]))"
    by (simp add: ex_step_def)
  from deps_first_acyclic [OF 3 this]
  have "acyclic (depends_on ((([] @ [?b]) @ [?t]) @ [?d]))" .
  moreover have "set ((([] @ [?b]) @ [?t]) @ [?d]) = set (WorkflowDefinition.Steps (ex_workflow ex_chain))"
    by (auto simp: ex_chain_def ex_workflow_def)
  ultimately show ?thesis using depends_on_set by metis
qed

text \<open>
  The amended claim at the chain \<open>build\<close>, \<open>test\<close>, \<open>deploy\<close>, listed in the opposite order:
  the resolver returns \<open>build, test, deploy\<close>.
\<close>

theorem execution_order_topological_witness:
  "\<exists>order. GetExecutionOrder (ex_workflow ex_chain) [''deploy'', ''test'', ''build''] = Inr order \<and>
     order = [ex_step ''build'' [] TemplateInit 0, ex_step ''test'' [''build''] TemplateAction 0,
              ex_step ''deploy'' [''test''] TemplateAction 0] \<and>
     mset order = mset (WorkflowDefinition.Steps (ex_workflow ex_chain)) \<and> deps_first order"
proof -
  have r: "range_order (ex_workflow ex_chain) [''deploy'', ''test'', ''build'']"
    by (auto simp: range_order_def ex_chain_def ex_workflow_def ex_step_def)
  have d: "distinct (map WorkflowStep.Name (WorkflowDefinition.Steps (ex_workflow ex_chain)))"
    by (simp add: ex_chain_def ex_workflow_def ex_step_def)
  have k: "deps_known (WorkflowDefinition.Steps (ex_workflow ex_chain))"
    by (simp add: deps_known_def ex_chain_def ex_workflow_def ex_step_def)
  from execution_order_topological [OF r d k ex_chain_acyclic]
  obtain order where
    run: "GetExecutionOrder (ex_workflow ex_chain) [''deploy'', ''test'', ''build''] = Inr order"
    and props: "mset order = mset (WorkflowDefinition.Steps (ex_workflow ex_chain))" "deps_first order"
    by blast
  have "order = [ex_step ''build'' [] TemplateInit 0, ex_step ''test'' [''build''] TemplateAction 0,
              ex_step ''deploy'' [''test''] TemplateAction 0]"
    using run unfolding ex_chain_run by simp
  then show ?thesis using run props by blast
qed

text \<open>
  Claim C6, as amended. (1) If some declared dependency is not the name of a step of the
  workflow, \<open>GetExecutionOrder\<close> returns the unknown-dependency error, which names a step
  of the workflow and a dependency of that step that is not a step name. (2) If every
  declared dependency is a step name and the dependency relation has a cycle, it returns
  the cycle error, whatever order the seeding loop meets the keys in; (3) in particular
  when a step depends on itself. (4) Whenever it returns an order, the order is a
  permutation of the workflow's steps with every dependency at an earlier index, every
  dependency is known and the dependency relation is acyclic: no partial or truncated
  order is ever returned. The names are validated before the queue loop runs, so a
  workflow with an unknown dependency and a cycle gets the unknown-dependency error.
\<close>

theorem invalid_workflow_rejected:
  "(\<not> deps_known (WorkflowDefinition.Steps w) \<longrightarrow>
      (\<exists>s \<in> set (WorkflowDefinition.Steps w). \<exists>d \<in> set (Depends s).
         d \<notin> set (map WorkflowStep.Name (WorkflowDefinition.Steps w)) \<and>
         GetExecutionOrder w keyOrder = Inl (UnknownDependency (WorkflowStep.Name s) d))) \<and>
   (range_order w keyOrder \<and> deps_known (WorkflowDefinition.Steps w) \<and>
    \<not> acyclic (depends_on (WorkflowDefinition.Steps w)) \<longrightarrow>
      GetExecutionOrder w keyOrder = Inl DependencyCycle) \<and>
   (range_order w keyOrder \<and> deps_known (WorkflowDefinition.Steps w) \<and>
    (\<exists>s \<in> set (WorkflowDefinition.Steps w). WorkflowStep.Name s \<in> set (Depends s)) \<longrightarrow>
      GetExecutionOrder w keyOrder = Inl DependencyCycle) \<and>
   (\<forall>order. range_order w keyOrder \<and> GetExecutionOrder w keyOrder = Inr order \<longrightarrow>
      mset order = mset (WorkflowDefinition.Steps w) \<and> deps_first order \<and>
      deps_known (WorkflowDefinition.Steps w) \<and>
      acyclic (depends_on (WorkflowDefinition.Steps w)))"
proof -
  have 1: "\<not> deps_known (WorkflowDefinition.Steps w) \<longrightarrow>
      (\<exists>s \<in> set (WorkflowDefinition.Steps w). \<exists>d \<in> set (Depends s).
         d \<notin> set (map WorkflowStep.Name (WorkflowDefinition.Steps w)) \<and>
         GetExecutionOrder w keyOrder = Inl (UnknownDependency (WorkflowStep.Name s) d))"
    using GetExecutionOrder_unknown [of w keyOrder] by blast
  have 2: "range_order w keyOrder \<and> deps_known (WorkflowDefinition.Steps w) \<and>
    \<not> acyclic (depends_on (WorkflowDefinition.Steps w)) \<longrightarrow>
      GetExecutionOrder w keyOrder = Inl DependencyCycle"
    using GetExecutionOrder_cycle [of w keyOrder] by blast
  have 3: "range_order w keyOrder \<and> deps_known (WorkflowDefinition.Steps w) \<and>
    (\<exists>s \<in> set (WorkflowDefinition.Steps w). WorkflowStep.Name s \<in> set (Depends s)) \<longrightarrow>
      GetExecutionOrder w keyOrder = Inl DependencyCycle"
    using GetExecutionOrder_cycle [of w keyOrder] self_dependency_cyclic by blast
  have 4: "\<forall>order. range_order w keyOrder \<and> GetExecutionOrder w keyOrder = Inr order \<longrightarrow>
      mset order = mset (WorkflowDefinition.Steps w) \<and> deps_first order \<and>
      deps_known (WorkflowDefinition.Steps w) \<and>
      acyclic (depends_on (WorkflowDefinition.Steps w))"
  proof (intro allI impI)
    fix order
    assume a: "range_order w keyOrder \<and> GetExecutionOrder w keyOrder = Inr order"
    then have r: "range_order w keyOrder" and run: "GetExecutionOrder w keyOrder = Inr order"
      by simp_all
    from GetExecutionOrder_sound [OF run r]
    have s: "mset order = mset (WorkflowDefinition.Steps w)" "deps_first order"
      "deps_known (WorkflowDefinition.Steps w)" by blast+
    have "acyclic (depends_on (WorkflowDefinition.Steps w))"
    proof (rule ccontr)
      assume "\<not> acyclic (depends_on (WorkflowDefinition.Steps w))"
      from GetExecutionOrder_cycle [OF r s(3) this] run show False by simp
    qed
    with s show "mset order = mset (WorkflowDefinition.Steps w) \<and> deps_first order \<and>
      deps_known (WorkflowDefinition.Steps w) \<and>
      acyclic (depends_on (WorkflowDefinition.Steps w))" by blast
  qed
  from 1 2 3 4 show ?thesis by (intro conjI)
qed

text \<open>
  The claim as stated fails where a workflow has both defects: the step \<open>a\<close> that depends
  on itself and on the missing step \<open>ghost\<close> is part of a dependency cycle, and the error
  returned is the unknown-dependency error, not the cycle error.
\<close>

theorem cycle_with_unknown_dependency_counterexample:
  "\<not> acyclic (depends_on (WorkflowDefinition.Steps (ex_workflow ex_both))) \<and>
   range_order (ex_workflow ex_both) [''a''] \<and>
   GetExecutionOrder (ex_workflow ex_both) [''a''] = Inl (UnknownDependency ''a'' ''ghost'') \<and>
   GetExecutionOrder (ex_workflow ex_both) [''a''] \<noteq> Inl DependencyCycle"
proof -
  have "\<not> acyclic (depends_on (WorkflowDefinition.Steps (ex_workflow ex_both)))"
    by (rule self_dependency_cyclic [of "ex_step ''a'' [''a'', ''ghost''] TemplateAction 0"])
       (simp_all add: ex_both_def ex_workflow_def ex_step_def)
  moreover have "range_order (ex_workflow ex_both) [''a'']"
    by (simp add: range_order_def ex_both_def ex_workflow_def ex_step_def)
  moreover have "GetExecutionOrder (ex_workflow ex_both) [''a''] =
      Inl (UnknownDependency ''a'' ''ghost'')"
    by (simp add: resolve_defs ex_both_def ex_workflow_def ex_step_def)
  ultimately show ?thesis by simp
qed

lemma ex_loop_cyclic: "\<not> acyclic (depends_on (WorkflowDefinition.Steps (ex_workflow ex_loop)))"
proof -
  have ab: "(''a'', ''b'') \<in> depends_on (WorkflowDefinition.Steps (ex_workflow ex_loop))"
    unfolding depends_on_def
    by (auto simp: ex_loop_def ex_workflow_def ex_step_def)
  have ba: "(''b'', ''a'') \<in> depends_on (WorkflowDefinition.Steps (ex_workflow ex_loop))"
    unfolding depends_on_def
    by (auto simp: ex_loop_def ex_workflow_def ex_step_def)
  have "(''a'', ''a'') \<in> (depends_on (WorkflowDefinition.Steps (ex_workflow ex_loop)))\<^sup>+"
    using ab ba by (meson r_into_trancl trancl_into_trancl)
  then show ?thesis unfolding acyclic_def by blast
qed

text \<open>
  The amended claim at three workflows: \<open>b\<close> depends on the missing step \<open>ghost\<close>;
  \<open>b\<close> depends on itself; \<open>a\<close> and \<open>b\<close> depend on each other.
\<close>

theorem invalid_workflow_rejected_witness:
  "GetExecutionOrder (ex_workflow ex_ghost) [''a'', ''b''] = Inl (UnknownDependency ''b'' ''ghost'') \<and>
   GetExecutionOrder (ex_workflow ex_self) [''a'', ''b''] = Inl DependencyCycle \<and>
   \<not> acyclic (depends_on (WorkflowDefinition.Steps (ex_workflow ex_loop))) \<and>
   GetExecutionOrder (ex_workflow ex_loop) [''a'', ''b''] = Inl DependencyCycle"
proof -
  have g: "\<not> deps_known (WorkflowDefinition.Steps (ex_workflow ex_ghost))"
    by (simp add: deps_known_def ex_ghost_def ex_workflow_def ex_step_def)
  from invalid_workflow_rejected [of "ex_workflow ex_ghost" "[''a'', ''b'']",
      THEN conjunct1, THEN mp, OF g]
  have 1: "GetExecutionOrder (ex_workflow ex_ghost) [''a'', ''b''] =
      Inl (UnknownDependency ''b'' ''ghost'')"
    by (auto simp: ex_ghost_def ex_workflow_def ex_step_def)
  have s: "range_order (ex_workflow ex_self) [''a'', ''b''] \<and>
      deps_known (WorkflowDefinition.Steps (ex_workflow ex_self)) \<and>
      (\<exists>s \<in> set (WorkflowDefinition.Steps (ex_workflow ex_self)).
          WorkflowStep.Name s \<in> set (Depends s))"
    by (auto simp: range_order_def deps_known_def ex_self_def ex_workflow_def ex_step_def)
  from invalid_workflow_rejected [of "ex_workflow ex_self" "[''a'', ''b'']",
      THEN conjunct2, THEN conjunct2, THEN conjunct1, THEN mp, OF s]
  have 2: "GetExecutionOrder (ex_workflow ex_self) [''a'', ''b''] = Inl DependencyCycle" .
  have l: "range_order (ex_workflow ex_loop) [''a'', ''b''] \<and>
      deps_known (WorkflowDefinition.Steps (ex_workflow ex_loop)) \<and>
      \<not> acyclic (depends_on (WorkflowDefinition.Steps (ex_workflow ex_loop)))"
    using ex_loop_cyclic
    by (auto simp: range_order_def deps_known_def ex_loop_def ex_workflow_def ex_step_def)
  from invalid_workflow_rejected [of "ex_workflow ex_loop" "[''a'', ''b'']",
      THEN conjunct2, THEN conjunct1, THEN mp, OF l]
  have 3: "GetExecutionOrder (ex_workflow ex_loop) [''a'', ''b''] = Inl DependencyCycle" .
  from 1 2 3 ex_loop_cyclic show ?thesis by (intro conjI)
qed

text \<open>
  Claim C7 fails on the code. The queue is seeded by \<open>for name, degree := range inDegree\<close>,
  a loop over a Go map, whose iteration order is unspecified and differs from one
  evaluation to the next. For the workflow with the two independent steps \<open>a\<close> and \<open>b\<close>,
  an evaluation that meets the keys as \<open>a, b\<close> returns the order \<open>a, b\<close> and one that meets
  them as \<open>b, a\<close> returns \<open>b, a\<close>: the same input, two different orders.
\<close>

theorem order_depends_on_map_iteration:
  "range_order (ex_workflow ex_pair) [''a'', ''b''] \<and>
   range_order (ex_workflow ex_pair) [''b'', ''a''] \<and>
   GetExecutionOrder (ex_workflow ex_pair) [''a'', ''b''] =
     Inr [ex_step ''a'' [] TemplateAction 0, ex_step ''b'' [] TemplateAction 0] \<and>
   GetExecutionOrder (ex_workflow ex_pair) [''b'', ''a''] =
     Inr [ex_step ''b'' [] TemplateAction 0, ex_step ''a'' [] TemplateAction 0] \<and>
   GetExecutionOrder (ex_workflow ex_pair) [''a'', ''b''] \<noteq>
     GetExecutionOrder (ex_workflow ex_pair) [''b'', ''a'']"
  by (auto simp: resolve_defs ex_pair_def ex_workflow_def ex_step_def)

section \<open>Run\<close>

lemma hasFinalize_iff: "hasFinalize steps = (\<exists>s \<in> set steps. Template s = TemplateFinalize)"
  by (induction steps) auto

lemma executeStep_some:
  assumes budget: "sint (GetRetries (workflow r) step) < 2^63 - 2"
  shows "\<exists>e r' w' calls. executeStep r registry step w = Some (e, r', w', calls) \<and>
           workflow r' = workflow r \<and> StepExec.Name e = WorkflowStep.Name step"
proof (cases "Get registry (GetHandlerName (workflow r) step)")
  case None
  show ?thesis
    unfolding executeStep_not_found [OF None] by (simp add: newStepExec_def)
next
  case (Some h)
  from executeStep_total [OF Some budget, of w] obtain n exec where
    run: "executeStep r registry step w =
             Some (exec,
                   r\<lparr>vars := vars r ++ ContextUpdates (outcome h (deps r) (stepInput r step) w n)\<rparr>,
                   world_after h (deps r) (stepInput r step) w n,
                   attempts h (deps r) (stepInput r step) w n)"
    and exec: "exec = (if skip_requested (outcome h (deps r) (stepInput r step) w n)
                   then (newStepExec step (GetHandlerName (workflow r) step))
                          \<lparr>Status := ''Skipped'',
                           Error := skip_reason (outcome h (deps r) (stepInput r step) w n)\<rparr>
                   else if \<not> HasErrors (outcome h (deps r) (stepInput r step) w n)
                   then (newStepExec step (GetHandlerName (workflow r) step))\<lparr>Status := ''Succeeded''\<rparr>
                   else (newStepExec step (GetHandlerName (workflow r) step))\<lparr>Status := ''Failed''\<rparr>)
                  \<lparr>StepExec.Messages := StepResult.Messages (outcome h (deps r) (stepInput r step) w n),
                   StepExec.Output := StepResult.Output (outcome h (deps r) (stepInput r step) w n)\<rparr>"
    by blast
  have "StepExec.Name exec = WorkflowStep.Name step"
    unfolding exec by (simp add: newStepExec_def)
  then show ?thesis unfolding run by simp
qed

lemma run_steps_char:
  assumes budget: "\<forall>s \<in> set rest. sint (GetRetries (workflow r) s) < 2^63 - 2"
    and sub: "set rest \<subseteq> set steps"
  shows "\<exists>n r' w' new.
           n \<le> length rest \<and> length new = n \<and>
           exec_steps registry (take n rest) r w recs = Some (r', w', recs @ new) \<and>
           run_steps registry steps rest r w recs failed =
             Some (r', w', recs @ new, failed \<or> (\<exists>e \<in> set new. Status e = ''Failed'')) \<and>
           map StepExec.Name new = map WorkflowStep.Name (take n rest) \<and>
           (hasFinalize steps \<longrightarrow> n = length rest) \<and>
           (\<not> hasFinalize steps \<longrightarrow>
              (\<forall>i. Suc i < n \<longrightarrow> Status (new ! i) \<noteq> ''Failed'') \<and>
              (n < length rest \<longrightarrow> 1 \<le> n \<and> Status (new ! (n - 1)) = ''Failed''))"
  using assms
proof (induction rest arbitrary: r w recs failed)
  case Nil
  show ?case by (intro exI [of _ 0] exI [of _ r] exI [of _ w] exI [of _ "[]"]) simp
next
  case (Cons step rest)
  have b: "sint (GetRetries (workflow r) step) < 2^63 - 2" using Cons.prems(1) by simp
  from executeStep_some [OF b, of registry w] obtain e r1 w1 calls where
    ex: "executeStep r registry step w = Some (e, r1, w1, calls)"
    and wf: "workflow r1 = workflow r"
    and nm: "StepExec.Name e = WorkflowStep.Name step"
    by blast
  have instep: "step \<in> set steps" using Cons.prems(2) by simp
  show ?case
  proof (cases "Status e = ''Failed'' \<and> \<not> hasFinalize steps")
    case True
    then have tf: "Template step \<noteq> TemplateFinalize"
      using instep by (auto simp: hasFinalize_iff)
    have run: "run_steps registry steps (step # rest) r w recs failed =
        Some (r1, w1, recs @ [e], True)"
      using True tf by (simp add: ex)
    have es: "exec_steps registry (take 1 (step # rest)) r w recs = Some (r1, w1, recs @ [e])"
      by (simp add: ex)
    show ?thesis
      apply (rule exI [of _ 1], rule exI [of _ r1], rule exI [of _ w1], rule exI [of _ "[e]"])
      using True run es nm by simp
  next
    case False
    define failed' where "failed' = (if Status e = ''Failed'' then True else failed)"
    have run: "run_steps registry steps (step # rest) r w recs failed =
        run_steps registry steps rest r1 w1 (recs @ [e]) failed'"
      using False by (auto simp: ex failed'_def)
    have b': "\<forall>s \<in> set rest. sint (GetRetries (workflow r1) s) < 2^63 - 2"
      using Cons.prems(1) wf by simp
    have sub': "set rest \<subseteq> set steps" using Cons.prems(2) by simp
    from Cons.IH [OF b' sub', of w1 "recs @ [e]" failed'] obtain n r' w' new where
      n: "n \<le> length rest" "length new = n"
      and es: "exec_steps registry (take n rest) r1 w1 (recs @ [e]) = Some (r', w', (recs @ [e]) @ new)"
      and rs: "run_steps registry steps rest r1 w1 (recs @ [e]) failed' =
             Some (r', w', (recs @ [e]) @ new, failed' \<or> (\<exists>e \<in> set new. Status e = ''Failed''))"
      and names: "map StepExec.Name new = map WorkflowStep.Name (take n rest)"
      and fin: "hasFinalize steps \<longrightarrow> n = length rest"
      and nofin: "\<not> hasFinalize steps \<longrightarrow>
              (\<forall>i. Suc i < n \<longrightarrow> Status (new ! i) \<noteq> ''Failed'') \<and>
              (n < length rest \<longrightarrow> 1 \<le> n \<and> Status (new ! (n - 1)) = ''Failed'')"
      by blast
    have c1: "Suc n \<le> length (step # rest)" using n(1) by simp
    have c2: "length (e # new) = Suc n" using n(2) by simp
    have c3: "exec_steps registry (take (Suc n) (step # rest)) r w recs = Some (r', w', recs @ (e # new))"
      using es by (simp add: ex)
    have c4: "run_steps registry steps (step # rest) r w recs failed =
             Some (r', w', recs @ (e # new), failed \<or> (\<exists>x \<in> set (e # new). Status x = ''Failed''))"
      unfolding run rs by (auto simp: failed'_def)
    have c5: "map StepExec.Name (e # new) = map WorkflowStep.Name (take (Suc n) (step # rest))"
      using names nm by simp
    have c6: "hasFinalize steps \<longrightarrow> Suc n = length (step # rest)" using fin by simp
    have c7: "\<not> hasFinalize steps \<longrightarrow>
              (\<forall>i. Suc i < Suc n \<longrightarrow> Status ((e # new) ! i) \<noteq> ''Failed'') \<and>
              (Suc n < length (step # rest) \<longrightarrow> 1 \<le> Suc n \<and> Status ((e # new) ! (Suc n - 1)) = ''Failed'')"
    proof (intro impI conjI allI)
      fix i assume nf: "\<not> hasFinalize steps" and i: "Suc i < Suc n"
      have e: "Status e \<noteq> ''Failed''" using False nf by simp
      show "Status ((e # new) ! i) \<noteq> ''Failed''"
      proof (cases i)
        case 0
        then show ?thesis using e by simp
      next
        case (Suc j)
        then have "Suc j < n" using i by simp
        then show ?thesis using nofin nf Suc by simp
      qed
    next
      assume "\<not> hasFinalize steps" "Suc n < length (step # rest)"
      then show "1 \<le> Suc n" by simp
    next
      assume nf: "\<not> hasFinalize steps" and l: "Suc n < length (step # rest)"
      then have "n < length rest" by simp
      with nofin nf have "1 \<le> n" "Status (new ! (n - 1)) = ''Failed''" by simp_all
      then show "Status ((e # new) ! (Suc n - 1)) = ''Failed''"
        by (cases n) simp_all
    qed
    show ?thesis
      apply (rule exI [of _ "Suc n"], rule exI [of _ r'], rule exI [of _ w'], rule exI [of _ "e # new"])
      using c1 c2 c3 c4 c5 c6 c7 by blast
  qed
qed

lemma Run_error:
  assumes "GetExecutionOrder (workflow r) keyOrder = Inl err"
  shows "\<exists>result. Run r registry keyOrder w = Some (result, r, w) \<and>
           Result result = ''Error'' \<and> ExecutionResult.Steps result = [] \<and>
           ErrorMessage result = Some err"
  by (simp add: Run_def assms)

lemma Run_ordered:
  assumes ro: "range_order (workflow r) keyOrder"
    and ord: "GetExecutionOrder (workflow r) keyOrder = Inr order"
    and budget: "\<forall>s \<in> set (WorkflowDefinition.Steps (workflow r)).
                   sint (GetRetries (workflow r) s) < 2^63 - 2"
  shows "\<exists>result r' w' n.
           Run r registry keyOrder w = Some (result, r', w') \<and>
           n \<le> length order \<and> length (ExecutionResult.Steps result) = n \<and>
           exec_steps registry (take n order) r w [] = Some (r', w', ExecutionResult.Steps result) \<and>
           map StepExec.Name (ExecutionResult.Steps result) = map WorkflowStep.Name (take n order) \<and>
           FinalVars result = vars r' \<and>
           ((\<exists>s \<in> set (WorkflowDefinition.Steps (workflow r)). Template s = TemplateFinalize)
              \<longrightarrow> n = length order) \<and>
           (\<not> (\<exists>s \<in> set (WorkflowDefinition.Steps (workflow r)). Template s = TemplateFinalize)
              \<longrightarrow> (\<forall>i. Suc i < n \<longrightarrow> Status (ExecutionResult.Steps result ! i) \<noteq> ''Failed'') \<and>
                   (n < length order \<longrightarrow>
                      1 \<le> n \<and> Status (ExecutionResult.Steps result ! (n - 1)) = ''Failed'')) \<and>
           (Result result = ''Failed'') =
             (\<exists>e \<in> set (ExecutionResult.Steps result). Status e = ''Failed'') \<and>
           (Result result = ''Succeeded'') =
             (\<not> (\<exists>e \<in> set (ExecutionResult.Steps result). Status e = ''Failed''))"
proof -
  from GetExecutionOrder_sound [OF ord ro]
  have "mset order = mset (WorkflowDefinition.Steps (workflow r))" by blast
  then have same: "set order = set (WorkflowDefinition.Steps (workflow r))" by (rule mset_eq_setD)
  have b: "\<forall>s \<in> set order. sint (GetRetries (workflow r) s) < 2^63 - 2"
    using budget same by simp
  have fin: "hasFinalize order =
      (\<exists>s \<in> set (WorkflowDefinition.Steps (workflow r)). Template s = TemplateFinalize)"
    unfolding hasFinalize_iff same ..
  from run_steps_char [OF b subset_refl, of registry w "[]" False] obtain n r' w' new where
    n: "n \<le> length order" "length new = n"
    and es: "exec_steps registry (take n order) r w [] = Some (r', w', new)"
    and rs: "run_steps registry order order r w [] False =
             Some (r', w', new, \<exists>e \<in> set new. Status e = ''Failed'')"
    and names: "map StepExec.Name new = map WorkflowStep.Name (take n order)"
    and f1: "hasFinalize order \<longrightarrow> n = length order"
    and f2: "\<not> hasFinalize order \<longrightarrow>
              (\<forall>i. Suc i < n \<longrightarrow> Status (new ! i) \<noteq> ''Failed'') \<and>
              (n < length order \<longrightarrow> 1 \<le> n \<and> Status (new ! (n - 1)) = ''Failed'')"
    by auto
  define result where "result =
    \<lparr>Result = (if \<exists>e \<in> set new. Status e = ''Failed'' then ''Failed'' else ''Succeeded''),
     ExecutionResult.TaskID = cfgTaskID r,
     ExecutionResult.WorkflowName = WorkflowDefinition.Name (workflow r),
     ExecutionResult.Steps = new, FinalVars = vars r', ErrorMessage = None\<rparr>"
  have run: "Run r registry keyOrder w = Some (result, r', w')"
    by (simp add: Run_def ord rs result_def)
  have st: "ExecutionResult.Steps result = new" by (simp add: result_def)
  have fv: "FinalVars result = vars r'" by (simp add: result_def)
  have r1: "(Result result = ''Failed'') = (\<exists>e \<in> set new. Status e = ''Failed'')"
    by (simp add: result_def)
  have r2: "(Result result = ''Succeeded'') = (\<not> (\<exists>e \<in> set new. Status e = ''Failed''))"
    by (simp add: result_def)
  show ?thesis
    apply (rule exI [of _ result], rule exI [of _ r'], rule exI [of _ w'], rule exI [of _ n])
    unfolding st fin [symmetric]
    using run n es names fv f1 f2 r1 r2 by blast
qed

lemma executeStep_name:
  assumes run: "executeStep r registry step w = Some (e, r', w', calls)"
  shows "StepExec.Name e = WorkflowStep.Name step"
proof (cases "Get registry (GetHandlerName (workflow r) step)")
  case None
  from run show ?thesis
    unfolding executeStep_not_found [OF None] by (auto simp: newStepExec_def)
next
  case (Some h)
  from Some run obtain res exec0 where
    loop: "retry_loop h (deps r) (maxAttempts (workflow r) step) 1 (stepInput r step)
       zeroStepResult (newStepExec step (GetHandlerName (workflow r) step)) w [] =
       Some (res, exec0, w', calls)"
    and exec: "e = exec0\<lparr>StepExec.Messages := StepResult.Messages res,
                      StepExec.Output := StepResult.Output res\<rparr>"
    by (rule executeStep_result)
  from retry_loop_result_aux [OF loop]
  have "StepExec.Name exec0 = StepExec.Name (newStepExec step (GetHandlerName (workflow r) step))"
    by auto
  then show ?thesis unfolding exec by (simp add: newStepExec_def)
qed

lemma run_steps_returned:
  assumes run: "run_steps registry steps rest r w recs failed = Some (r', w', recs', failed')"
    and sub: "set rest \<subseteq> set steps"
  shows "\<exists>n new.
           n \<le> length rest \<and> length new = n \<and> recs' = recs @ new \<and>
           exec_steps registry (take n rest) r w recs = Some (r', w', recs @ new) \<and>
           failed' = (failed \<or> (\<exists>e \<in> set new. Status e = ''Failed'')) \<and>
           map StepExec.Name new = map WorkflowStep.Name (take n rest) \<and>
           (hasFinalize steps \<longrightarrow> n = length rest) \<and>
           (\<not> hasFinalize steps \<longrightarrow>
              (\<forall>i. Suc i < n \<longrightarrow> Status (new ! i) \<noteq> ''Failed'') \<and>
              (n < length rest \<longrightarrow> 1 \<le> n \<and> Status (new ! (n - 1)) = ''Failed''))"
  using assms
proof (induction rest arbitrary: r w recs failed)
  case Nil
  then show ?case by (intro exI [of _ 0] exI [of _ "[]"]) simp
next
  case (Cons step rest)
  obtain e r1 w1 calls where ex: "executeStep r registry step w = Some (e, r1, w1, calls)"
    using Cons.prems(1) by (cases "executeStep r registry step w") auto
  have nm: "StepExec.Name e = WorkflowStep.Name step" by (rule executeStep_name [OF ex])
  have instep: "step \<in> set steps" using Cons.prems(2) by simp
  show ?case
  proof (cases "Status e = ''Failed'' \<and> \<not> hasFinalize steps")
    case True
    then have tf: "Template step \<noteq> TemplateFinalize"
      using instep by (auto simp: hasFinalize_iff)
    have "run_steps registry steps (step # rest) r w recs failed =
        Some (r1, w1, recs @ [e], True)"
      using True tf by (simp add: ex)
    with Cons.prems(1) have eq: "r' = r1" "w' = w1" "recs' = recs @ [e]" "failed' = True"
      by simp_all
    have es: "exec_steps registry (take 1 (step # rest)) r w recs = Some (r1, w1, recs @ [e])"
      by (simp add: ex)
    show ?thesis
      apply (rule exI [of _ 1], rule exI [of _ "[e]"])
      using True eq es nm by simp
  next
    case False
    define failed1 where "failed1 = (if Status e = ''Failed'' then True else failed)"
    have "run_steps registry steps (step # rest) r w recs failed =
        run_steps registry steps rest r1 w1 (recs @ [e]) failed1"
      using False by (auto simp: ex failed1_def)
    with Cons.prems(1) have run':
      "run_steps registry steps rest r1 w1 (recs @ [e]) failed1 = Some (r', w', recs', failed')"
      by simp
    have sub': "set rest \<subseteq> set steps" using Cons.prems(2) by simp
    from Cons.IH [OF run' sub'] obtain n new where
      n: "n \<le> length rest" "length new = n"
      and rc: "recs' = (recs @ [e]) @ new"
      and es: "exec_steps registry (take n rest) r1 w1 (recs @ [e]) = Some (r', w', (recs @ [e]) @ new)"
      and fl: "failed' = (failed1 \<or> (\<exists>e \<in> set new. Status e = ''Failed''))"
      and names: "map StepExec.Name new = map WorkflowStep.Name (take n rest)"
      and fin: "hasFinalize steps \<longrightarrow> n = length rest"
      and nofin: "\<not> hasFinalize steps \<longrightarrow>
              (\<forall>i. Suc i < n \<longrightarrow> Status (new ! i) \<noteq> ''Failed'') \<and>
              (n < length rest \<longrightarrow> 1 \<le> n \<and> Status (new ! (n - 1)) = ''Failed'')"
      by blast
    have c1: "Suc n \<le> length (step # rest)" using n(1) by simp
    have c2: "length (e # new) = Suc n" using n(2) by simp
    have c2': "recs' = recs @ (e # new)" using rc by simp
    have c3: "exec_steps registry (take (Suc n) (step # rest)) r w recs = Some (r', w', recs @ (e # new))"
      using es by (simp add: ex)
    have c4: "failed' = (failed \<or> (\<exists>x \<in> set (e # new). Status x = ''Failed''))"
      unfolding fl by (auto simp: failed1_def)
    have c5: "map StepExec.Name (e # new) = map WorkflowStep.Name (take (Suc n) (step # rest))"
      using names nm by simp
    have c6: "hasFinalize steps \<longrightarrow> Suc n = length (step # rest)" using fin by simp
    have c7: "\<not> hasFinalize steps \<longrightarrow>
              (\<forall>i. Suc i < Suc n \<longrightarrow> Status ((e # new) ! i) \<noteq> ''Failed'') \<and>
              (Suc n < length (step # rest) \<longrightarrow> 1 \<le> Suc n \<and> Status ((e # new) ! (Suc n - 1)) = ''Failed'')"
    proof (intro impI conjI allI)
      fix i assume nf: "\<not> hasFinalize steps" and i: "Suc i < Suc n"
      have e: "Status e \<noteq> ''Failed''" using False nf by simp
      show "Status ((e # new) ! i) \<noteq> ''Failed''"
      proof (cases i)
        case 0
        then show ?thesis using e by simp
      next
        case (Suc j)
        then have "Suc j < n" using i by simp
        then show ?thesis using nofin nf Suc by simp
      qed
    next
      assume "\<not> hasFinalize steps" "Suc n < length (step # rest)"
      then show "1 \<le> Suc n" by simp
    next
      assume nf: "\<not> hasFinalize steps" and l: "Suc n < length (step # rest)"
      then have "n < length rest" by simp
      with nofin nf have "1 \<le> n" "Status (new ! (n - 1)) = ''Failed''" by simp_all
      then show "Status ((e # new) ! (Suc n - 1)) = ''Failed''"
        by (cases n) simp_all
    qed
    show ?thesis
      apply (rule exI [of _ "Suc n"], rule exI [of _ "e # new"])
      using c1 c2 c2' c3 c4 c5 c6 c7 by blast
  qed
qed

lemma Run_returned:
  assumes ro: "range_order (workflow r) keyOrder"
    and ord: "GetExecutionOrder (workflow r) keyOrder = Inr order"
    and run: "Run r registry keyOrder w = Some (result, r', w')"
  shows "\<exists>n.
           n \<le> length order \<and> length (ExecutionResult.Steps result) = n \<and>
           exec_steps registry (take n order) r w [] = Some (r', w', ExecutionResult.Steps result) \<and>
           map StepExec.Name (ExecutionResult.Steps result) = map WorkflowStep.Name (take n order) \<and>
           FinalVars result = vars r' \<and>
           ((\<exists>s \<in> set (WorkflowDefinition.Steps (workflow r)). Template s = TemplateFinalize)
              \<longrightarrow> n = length order) \<and>
           (\<not> (\<exists>s \<in> set (WorkflowDefinition.Steps (workflow r)). Template s = TemplateFinalize)
              \<longrightarrow> (\<forall>i. Suc i < n \<longrightarrow> Status (ExecutionResult.Steps result ! i) \<noteq> ''Failed'') \<and>
                   (n < length order \<longrightarrow>
                      1 \<le> n \<and> Status (ExecutionResult.Steps result ! (n - 1)) = ''Failed'')) \<and>
           (Result result = ''Failed'') =
             (\<exists>e \<in> set (ExecutionResult.Steps result). Status e = ''Failed'') \<and>
           (Result result = ''Succeeded'') =
             (\<not> (\<exists>e \<in> set (ExecutionResult.Steps result). Status e = ''Failed''))"
proof -
  from GetExecutionOrder_sound [OF ord ro]
  have "mset order = mset (WorkflowDefinition.Steps (workflow r))" by blast
  then have same: "set order = set (WorkflowDefinition.Steps (workflow r))" by (rule mset_eq_setD)
  have fin: "hasFinalize order =
      (\<exists>s \<in> set (WorkflowDefinition.Steps (workflow r)). Template s = TemplateFinalize)"
    unfolding hasFinalize_iff same ..
  from run obtain recs failed where
    rs: "run_steps registry order order r w [] False = Some (r', w', recs, failed)"
    and res: "result =
      \<lparr>Result = (if failed then ''Failed'' else ''Succeeded''),
       ExecutionResult.TaskID = cfgTaskID r,
       ExecutionResult.WorkflowName = WorkflowDefinition.Name (workflow r),
       ExecutionResult.Steps = recs, FinalVars = vars r', ErrorMessage = None\<rparr>"
    unfolding Run_def ord by (auto split: option.splits)
  from run_steps_returned [OF rs subset_refl] obtain n new where
    n: "n \<le> length order" "length new = n"
    and rc: "recs = new"
    and es: "exec_steps registry (take n order) r w [] = Some (r', w', new)"
    and fl: "failed = (\<exists>e \<in> set new. Status e = ''Failed'')"
    and names: "map StepExec.Name new = map WorkflowStep.Name (take n order)"
    and f1: "hasFinalize order \<longrightarrow> n = length order"
    and f2: "\<not> hasFinalize order \<longrightarrow>
              (\<forall>i. Suc i < n \<longrightarrow> Status (new ! i) \<noteq> ''Failed'') \<and>
              (n < length order \<longrightarrow> 1 \<le> n \<and> Status (new ! (n - 1)) = ''Failed'')"
    by auto
  have st: "ExecutionResult.Steps result = new" by (simp add: res rc)
  have fv: "FinalVars result = vars r'" by (simp add: res)
  have r1: "(Result result = ''Failed'') = (\<exists>e \<in> set new. Status e = ''Failed'')"
    by (simp add: res fl)
  have r2: "(Result result = ''Succeeded'') = (\<not> (\<exists>e \<in> set new. Status e = ''Failed''))"
    by (simp add: res fl)
  show ?thesis
    apply (rule exI [of _ n])
    unfolding st fin [symmetric]
    using n es names fv f1 f2 r1 r2 by blast
qed

lemma ex_halt_order:
  "GetExecutionOrder (workflow (ex_runner ex_halt)) [''a'', ''b'', ''c''] =
     Inr [ex_step ''a'' [] TemplateInit 0, ex_step ''b'' [''a''] TemplateAction 0,
          ex_step ''c'' [''a''] TemplateAction 0]"
  by (simp add: resolve_defs ex_halt_def ex_workflow_def ex_runner_def ex_step_def)

lemma ex_fin_order:
  "GetExecutionOrder (workflow (ex_runner ex_fin)) [''a'', ''b'', ''c'', ''cleanup''] =
     Inr [ex_step ''a'' [] TemplateInit 0, ex_step ''b'' [''a''] TemplateAction 0,
          ex_step ''c'' [''a''] TemplateAction 0,
          ex_step ''cleanup'' [''c''] TemplateFinalize 0]"
  by (simp add: resolve_defs ex_fin_def ex_workflow_def ex_runner_def ex_step_def)

lemma ex_halt_run:
  "\<exists>result r'. Run (ex_runner ex_halt) ex_run_registry [''a'', ''b'', ''c''] 0 = Some (result, r', 2) \<and>
     map StepExec.Name (ExecutionResult.Steps result) = [''a'', ''b''] \<and>
     map Status (ExecutionResult.Steps result) = [''Succeeded'', ''Failed''] \<and>
     Result result = ''Failed''"
  unfolding Run_def ex_halt_order
  by (simp add: executeStep_def retry_loop.simps ex_defs2 ex_run_registry_def
      TemplateInit_def TemplateFinalize_def)

lemma ex_fin_run:
  "\<exists>result r'. Run (ex_runner ex_fin) ex_run_registry [''a'', ''b'', ''c'', ''cleanup''] 0
       = Some (result, r', 4) \<and>
     map StepExec.Name (ExecutionResult.Steps result) = [''a'', ''b'', ''c'', ''cleanup''] \<and>
     map Status (ExecutionResult.Steps result) = [''Succeeded'', ''Failed'', ''Succeeded'', ''Succeeded''] \<and>
     Result result = ''Failed''"
  unfolding Run_def ex_fin_order
  by (simp add: executeStep_def retry_loop.simps ex_defs2 ex_run_registry_def
      TemplateInit_def TemplateFinalize_def)

text \<open>
  Claim C3, as amended. (1) If the execution order cannot be resolved, \<open>Run\<close> executes no
  step and its result is Error. (2) If it is resolved to \<open>order\<close> and every retry count is
  below \<open>2^63 - 2\<close>, \<open>Run\<close> returns, and what it did is to execute the first \<open>n\<close> steps of
  the order one after another, one record for each: with a finalize-tagged step in the
  workflow \<open>n\<close> is the length of the order, so that every step runs whatever fails;
  without one, no record before the last has status Failed and the run stops before the
  end of the order only after a record with status Failed, so that no step after a failed
  one is executed. The overall result is Failed exactly when some record has status
  Failed, and Succeeded exactly when none has. (3) The same holds of every run that
  returns, whatever the retry counts.
\<close>

theorem failure_halts_unless_finalize:
  "(\<forall>err. GetExecutionOrder (workflow r) keyOrder = Inl err \<longrightarrow>
      (\<exists>result. Run r registry keyOrder w = Some (result, r, w) \<and>
         Result result = ''Error'' \<and> ExecutionResult.Steps result = [] \<and>
         ErrorMessage result = Some err)) \<and>
   (\<forall>order.
      range_order (workflow r) keyOrder \<and>
      GetExecutionOrder (workflow r) keyOrder = Inr order \<and>
      (\<forall>s \<in> set (WorkflowDefinition.Steps (workflow r)).
         sint (GetRetries (workflow r) s) < 2^63 - 2) \<longrightarrow>
      (\<exists>result r' w' n.
         Run r registry keyOrder w = Some (result, r', w') \<and>
         n \<le> length order \<and> length (ExecutionResult.Steps result) = n \<and>
         exec_steps registry (take n order) r w [] = Some (r', w', ExecutionResult.Steps result) \<and>
         map StepExec.Name (ExecutionResult.Steps result) = map WorkflowStep.Name (take n order) \<and>
         FinalVars result = vars r' \<and>
         ((\<exists>s \<in> set (WorkflowDefinition.Steps (workflow r)). Template s = TemplateFinalize)
            \<longrightarrow> n = length order) \<and>
         (\<not> (\<exists>s \<in> set (WorkflowDefinition.Steps (workflow r)). Template s = TemplateFinalize)
            \<longrightarrow> (\<forall>i. Suc i < n \<longrightarrow> Status (ExecutionResult.Steps result ! i) \<noteq> ''Failed'') \<and>
                 (n < length order \<longrightarrow>
                    1 \<le> n \<and> Status (ExecutionResult.Steps result ! (n - 1)) = ''Failed'')) \<and>
         (Result result = ''Failed'') =
           (\<exists>e \<in> set (ExecutionResult.Steps result). Status e = ''Failed'') \<and>
         (Result result = ''Succeeded'') =
           (\<not> (\<exists>e \<in> set (ExecutionResult.Steps result). Status e = ''Failed'')))) \<and>
   (\<forall>order result r' w'.
      range_order (workflow r) keyOrder \<and>
      GetExecutionOrder (workflow r) keyOrder = Inr order \<and>
      Run r registry keyOrder w = Some (result, r', w') \<longrightarrow>
      (\<exists>n.
         n \<le> length order \<and> length (ExecutionResult.Steps result) = n \<and>
         exec_steps registry (take n order) r w [] = Some (r', w', ExecutionResult.Steps result) \<and>
         map StepExec.Name (ExecutionResult.Steps result) = map WorkflowStep.Name (take n order) \<and>
         FinalVars result = vars r' \<and>
         ((\<exists>s \<in> set (WorkflowDefinition.Steps (workflow r)). Template s = TemplateFinalize)
            \<longrightarrow> n = length order) \<and>
         (\<not> (\<exists>s \<in> set (WorkflowDefinition.Steps (workflow r)). Template s = TemplateFinalize)
            \<longrightarrow> (\<forall>i. Suc i < n \<longrightarrow> Status (ExecutionResult.Steps result ! i) \<noteq> ''Failed'') \<and>
                 (n < length order \<longrightarrow>
                    1 \<le> n \<and> Status (ExecutionResult.Steps result ! (n - 1)) = ''Failed'')) \<and>
         (Result result = ''Failed'') =
           (\<exists>e \<in> set (ExecutionResult.Steps result). Status e = ''Failed'') \<and>
         (Result result = ''Succeeded'') =
           (\<not> (\<exists>e \<in> set (ExecutionResult.Steps result). Status e = ''Failed''))))"
proof -
  have 1: "\<forall>err. GetExecutionOrder (workflow r) keyOrder = Inl err \<longrightarrow>
      (\<exists>result. Run r registry keyOrder w = Some (result, r, w) \<and>
         Result result = ''Error'' \<and> ExecutionResult.Steps result = [] \<and>
         ErrorMessage result = Some err)"
    using Run_error [of r keyOrder _ registry w] by blast
  have 2: "\<forall>order.
      range_order (workflow r) keyOrder \<and>
      GetExecutionOrder (workflow r) keyOrder = Inr order \<and>
      (\<forall>s \<in> set (WorkflowDefinition.Steps (workflow r)).
         sint (GetRetries (workflow r) s) < 2^63 - 2) \<longrightarrow>
      (\<exists>result r' w' n.
         Run r registry keyOrder w = Some (result, r', w') \<and>
         n \<le> length order \<and> length (ExecutionResult.Steps result) = n \<and>
         exec_steps registry (take n order) r w [] = Some (r', w', ExecutionResult.Steps result) \<and>
         map StepExec.Name (ExecutionResult.Steps result) = map WorkflowStep.Name (take n order) \<and>
         FinalVars result = vars r' \<and>
         ((\<exists>s \<in> set (WorkflowDefinition.Steps (workflow r)). Template s = TemplateFinalize)
            \<longrightarrow> n = length order) \<and>
         (\<not> (\<exists>s \<in> set (WorkflowDefinition.Steps (workflow r)). Template s = TemplateFinalize)
            \<longrightarrow> (\<forall>i. Suc i < n \<longrightarrow> Status (ExecutionResult.Steps result ! i) \<noteq> ''Failed'') \<and>
                 (n < length order \<longrightarrow>
                    1 \<le> n \<and> Status (ExecutionResult.Steps result ! (n - 1)) = ''Failed'')) \<and>
         (Result result = ''Failed'') =
           (\<exists>e \<in> set (ExecutionResult.Steps result). Status e = ''Failed'') \<and>
         (Result result = ''Succeeded'') =
           (\<not> (\<exists>e \<in> set (ExecutionResult.Steps result). Status e = ''Failed'')))"
    using Run_ordered [of r keyOrder _ registry w] by blast
  have 3: "\<forall>order result r' w'.
      range_order (workflow r) keyOrder \<and>
      GetExecutionOrder (workflow r) keyOrder = Inr order \<and>
      Run r registry keyOrder w = Some (result, r', w') \<longrightarrow>
      (\<exists>n.
         n \<le> length order \<and> length (ExecutionResult.Steps result) = n \<and>
         exec_steps registry (take n order) r w [] = Some (r', w', ExecutionResult.Steps result) \<and>
         map StepExec.Name (ExecutionResult.Steps result) = map WorkflowStep.Name (take n order) \<and>
         FinalVars result = vars r' \<and>
         ((\<exists>s \<in> set (WorkflowDefinition.Steps (workflow r)). Template s = TemplateFinalize)
            \<longrightarrow> n = length order) \<and>
         (\<not> (\<exists>s \<in> set (WorkflowDefinition.Steps (workflow r)). Template s = TemplateFinalize)
            \<longrightarrow> (\<forall>i. Suc i < n \<longrightarrow> Status (ExecutionResult.Steps result ! i) \<noteq> ''Failed'') \<and>
                 (n < length order \<longrightarrow>
                    1 \<le> n \<and> Status (ExecutionResult.Steps result ! (n - 1)) = ''Failed'')) \<and>
         (Result result = ''Failed'') =
           (\<exists>e \<in> set (ExecutionResult.Steps result). Status e = ''Failed'') \<and>
         (Result result = ''Succeeded'') =
           (\<not> (\<exists>e \<in> set (ExecutionResult.Steps result). Status e = ''Failed'')))"
    using Run_returned [of r keyOrder _ registry w] by blast
  from 1 2 3 show ?thesis by (intro conjI)
qed

text \<open>
  The claim as stated fails where the order cannot be resolved: for the workflow whose
  steps \<open>a\<close> and \<open>b\<close> depend on each other no step is executed, so none ended Failed, and
  the overall result is Error, not Succeeded.
\<close>

theorem unresolved_order_counterexample:
  "\<exists>result. Run (ex_runner ex_loop) ex_run_registry [''a'', ''b''] 0
                = Some (result, ex_runner ex_loop, 0) \<and>
     ExecutionResult.Steps result = [] \<and> Result result = ''Error'' \<and>
     Result result \<noteq> ''Succeeded'' \<and> Result result \<noteq> ''Failed''"
  by (simp add: Run_def resolve_defs ex_loop_def ex_workflow_def ex_runner_def ex_step_def)

text \<open>
  The amended claim at two runs in which the handler of \<open>b\<close> fails. Without a finalize
  step the run stops after \<open>b\<close>: \<open>c\<close>, which does not depend on \<open>b\<close>, is not executed and
  the handlers were invoked twice. With the finalize step \<open>cleanup\<close> all four steps are
  executed. Both runs end Failed.
\<close>

theorem failure_halts_unless_finalize_witness:
  "(\<exists>result r' w'.
      Run (ex_runner ex_halt) ex_run_registry [''a'', ''b'', ''c''] 0 = Some (result, r', w') \<and>
      map StepExec.Name (ExecutionResult.Steps result) = [''a'', ''b''] \<and>
      map Status (ExecutionResult.Steps result) = [''Succeeded'', ''Failed''] \<and>
      Result result = ''Failed'' \<and> w' = 2) \<and>
   (\<exists>result r' w'.
      Run (ex_runner ex_fin) ex_run_registry [''a'', ''b'', ''c'', ''cleanup''] 0
        = Some (result, r', w') \<and>
      map StepExec.Name (ExecutionResult.Steps result) = [''a'', ''b'', ''c'', ''cleanup''] \<and>
      map Status (ExecutionResult.Steps result) =
        [''Succeeded'', ''Failed'', ''Succeeded'', ''Succeeded''] \<and>
      Result result = ''Failed'' \<and> w' = 4)"
proof -
  have h: "range_order (workflow (ex_runner ex_halt)) [''a'', ''b'', ''c''] \<and>
      GetExecutionOrder (workflow (ex_runner ex_halt)) [''a'', ''b'', ''c''] =
        Inr [ex_step ''a'' [] TemplateInit 0, ex_step ''b'' [''a''] TemplateAction 0,
             ex_step ''c'' [''a''] TemplateAction 0] \<and>
      (\<forall>s \<in> set (WorkflowDefinition.Steps (workflow (ex_runner ex_halt))).
         sint (GetRetries (workflow (ex_runner ex_halt)) s) < 2^63 - 2)"
    unfolding ex_halt_order
    by (auto simp: range_order_def ex_halt_def ex_workflow_def ex_runner_def ex_step_def
        GetRetries_def)
  have f: "range_order (workflow (ex_runner ex_fin)) [''a'', ''b'', ''c'', ''cleanup''] \<and>
      GetExecutionOrder (workflow (ex_runner ex_fin)) [''a'', ''b'', ''c'', ''cleanup''] =
        Inr [ex_step ''a'' [] TemplateInit 0, ex_step ''b'' [''a''] TemplateAction 0,
             ex_step ''c'' [''a''] TemplateAction 0,
             ex_step ''cleanup'' [''c''] TemplateFinalize 0] \<and>
      (\<forall>s \<in> set (WorkflowDefinition.Steps (workflow (ex_runner ex_fin))).
         sint (GetRetries (workflow (ex_runner ex_fin)) s) < 2^63 - 2)"
    unfolding ex_fin_order
    by (auto simp: range_order_def ex_fin_def ex_workflow_def ex_runner_def ex_step_def
        GetRetries_def)
  from failure_halts_unless_finalize [of "ex_runner ex_halt" "[''a'', ''b'', ''c'']"
      ex_run_registry 0, THEN conjunct2, THEN conjunct1, rule_format, OF h]
  obtain result1 r1 w1 where
    run1: "Run (ex_runner ex_halt) ex_run_registry [''a'', ''b'', ''c''] 0 = Some (result1, r1, w1)"
    by blast
  from failure_halts_unless_finalize [of "ex_runner ex_fin" "[''a'', ''b'', ''c'', ''cleanup'']"
      ex_run_registry 0, THEN conjunct2, THEN conjunct1, rule_format, OF f]
  obtain result2 r2 w2 where
    run2: "Run (ex_runner ex_fin) ex_run_registry [''a'', ''b'', ''c'', ''cleanup''] 0
        = Some (result2, r2, w2)"
    by blast
  from ex_halt_run run1 have 1: "map StepExec.Name (ExecutionResult.Steps result1) = [''a'', ''b'']"
    "map Status (ExecutionResult.Steps result1) = [''Succeeded'', ''Failed'']"
    "Result result1 = ''Failed''" "w1 = 2"
    by auto
  from ex_fin_run run2 have 2:
    "map StepExec.Name (ExecutionResult.Steps result2) = [''a'', ''b'', ''c'', ''cleanup'']"
    "map Status (ExecutionResult.Steps result2) =
        [''Succeeded'', ''Failed'', ''Succeeded'', ''Succeeded'']"
    "Result result2 = ''Failed''" "w2 = 4"
    by auto
  have A: "\<exists>result r' w'.
      Run (ex_runner ex_halt) ex_run_registry [''a'', ''b'', ''c''] 0 = Some (result, r', w') \<and>
      map StepExec.Name (ExecutionResult.Steps result) = [''a'', ''b''] \<and>
      map Status (ExecutionResult.Steps result) = [''Succeeded'', ''Failed''] \<and>
      Result result = ''Failed'' \<and> w' = 2"
    apply (rule exI [of _ result1], rule exI [of _ r1], rule exI [of _ w1])
    apply (intro conjI run1 1)
    done
  have B: "\<exists>result r' w'.
      Run (ex_runner ex_fin) ex_run_registry [''a'', ''b'', ''c'', ''cleanup''] 0
        = Some (result, r', w') \<and>
      map StepExec.Name (ExecutionResult.Steps result) = [''a'', ''b'', ''c'', ''cleanup''] \<and>
      map Status (ExecutionResult.Steps result) =
        [''Succeeded'', ''Failed'', ''Succeeded'', ''Succeeded''] \<and>
      Result result = ''Failed'' \<and> w' = 4"
    apply (rule exI [of _ result2], rule exI [of _ r2], rule exI [of _ w2])
    apply (intro conjI run2 2)
    done
  show ?thesis by (rule conjI [OF A B])
qed

end
